theory Spec2Isabelle
  imports Complex_Main
begin

section \<open>Data model\<close>

text \<open>
  A node of the search tree carries a dictionary \<open>node.data\<close> and the list of its children.
  The keys the two source files read or write are \<open>"r"\<close> (arrival reward), \<open>"R"\<close> (backed-up
  return), \<open>"a"\<close> (arrival action, a Python integer), \<open>"done"\<close>, \<open>"obs"\<close> and \<open>"features"\<close>.
  Each key is a field that is \<open>None\<close> while the dictionary has no entry for it, so that a read
  of a missing key is the \<open>KeyError\<close> branch of the model. Python floats (double precision)
  are modelled by the reals; the single-precision array of the policy extraction has its
  rounding in the model.
\<close>

record node_data =
  data_r :: "real option"
  data_R :: "real option"
  data_a :: "int option"
  data_done :: "bool option"
  data_obs :: "real list option"
  data_features :: "int list option"

datatype node = Node (data: node_data) (children: "node list")

datatype error = KeyError string | IndexError | ValueError

text \<open>
  Modelled from the spec: the class \<open>Tree\<close> (file \<open>tree.py\<close>) is not among the sources. The
  spec's SearchTree is the nodes below a root pointer plus the branching-factor constant.
\<close>

record tree =
  tree_root :: node
  branching_factor :: nat

text \<open>
  A node object is referred to by the position it has in the tree: the list of child indices
  that leads to it from the root. The root is \<open>[]\<close>.
\<close>

type_synonym ref = "nat list"

primrec node_at :: "ref \<Rightarrow> node \<Rightarrow> node option" where
  "node_at [] n = Some n"
| "node_at (i # p) n =
     (if i < length (children n) then node_at p (children n ! i) else None)"

text \<open>The assignment \<open>node.data = f(node.data)\<close> on the node object at a position.\<close>

primrec set_data :: "(node_data \<Rightarrow> node_data) \<Rightarrow> ref \<Rightarrow> node \<Rightarrow> node" where
  "set_data f [] n = Node (f (data n)) (children n)"
| "set_data f (i # p) n =
     (if i < length (children n)
      then Node (data n) ((children n)[i := set_data f p (children n ! i)])
      else n)"

text \<open>
  Modelled from the spec: \<open>Node.is_leaf\<close> is not among the sources. A leaf is a node that has
  no children.
\<close>

definition is_leaf :: "node \<Rightarrow> bool" where
  "is_leaf n = (children n = [])"

section \<open>Breadth-first traversal\<close>

text \<open>
  Modelled from the spec: the breadth-first order of the tree is not among the sources.
  \<open>level d\<close> lists the positions of the nodes at depth \<open>d\<close> below a node, left to right, and
  \<open>max_depth\<close> is the depth of the deepest node.
\<close>

primrec level :: "nat \<Rightarrow> node \<Rightarrow> ref list" where
  "level 0 n = [[]]"
| "level (Suc d) n =
     concat (map (\<lambda>i. map ((#) i) (level d (children n ! i))) [0..<length (children n)])"

fun max_depth :: "node \<Rightarrow> nat" where
  "max_depth (Node d cs) = foldr max (map (\<lambda>c. Suc (max_depth c)) cs) 0"

text \<open>
  Modelled from the spec: \<open>Tree.iter_breadth_first_reverse\<close> is not among the sources. The
  spec has the backup "traverse nodes in reverse breadth-first order (deepest first, root
  last)", the root taking part only when \<open>include_root\<close> is set, and leaves only when
  \<open>include_leaves\<close> is set.
\<close>

definition iter_breadth_first_reverse :: "tree \<Rightarrow> bool \<Rightarrow> bool \<Rightarrow> ref list" where
  "iter_breadth_first_reverse t include_root include_leaves =
     filter (\<lambda>p. include_leaves \<or> (case node_at p (tree_root t) of
                                       None \<Rightarrow> False | Some n \<Rightarrow> \<not> is_leaf n))
       (concat (map (\<lambda>d. level d (tree_root t)) (rev [1..<Suc (max_depth (tree_root t))]))
        @ (if include_root then [[]] else []))"

section \<open>Return backup (online\_planning.py, compute\_return)\<close>

text \<open>\<open>np.max\<close> of a list: the largest element; the empty list raises \<open>ValueError\<close>.\<close>

fun np_max :: "real list \<Rightarrow> error + real" where
  "np_max [] = Inl ValueError"
| "np_max (x # xs) = Inr (fold max xs x)"

text \<open>
  The value \<open>R\<close> that the loop body computes for one node. \<open>node.data["r"]\<close> is read first,
  then the comprehension reads \<open>child.data["R"]\<close> of each child in order.
\<close>

definition node_return :: "real \<Rightarrow> node \<Rightarrow> error + real" where
  "node_return discount_factor n =
     (if is_leaf n then
        (case data_r (data n) of None \<Rightarrow> Inl (KeyError ''r'') | Some rv \<Rightarrow> Inr rv)
      else
        (case data_r (data n) of
           None \<Rightarrow> Inl (KeyError ''r'')
         | Some rv \<Rightarrow>
             (case those (map (\<lambda>c. data_R (data c)) (children n)) of
                None \<Rightarrow> Inl (KeyError ''R'')
              | Some rs \<Rightarrow>
                  (case np_max rs of
                     Inl e \<Rightarrow> Inl e
                   | Inr m \<Rightarrow> Inr (rv + discount_factor * m)))))"

text \<open>
  One iteration of the loop: compute \<open>R\<close>, then \<open>node.data["R"] = R\<close>. The iterator yields
  node objects of the tree; a position that is no node of the tree has no counterpart in the
  source and ends the model's loop.
\<close>

definition visit :: "real \<Rightarrow> node \<Rightarrow> ref \<Rightarrow> error + node" where
  "visit discount_factor rt p =
     (case node_at p rt of
        None \<Rightarrow> Inl IndexError
      | Some n \<Rightarrow>
          (case node_return discount_factor n of
             Inl e \<Rightarrow> Inl e
           | Inr v \<Rightarrow> Inr (set_data (\<lambda>d. d\<lparr>data_R := Some v\<rparr>) p rt)))"

text \<open>
  The loop over the traversal. An exception leaves the loop with the writes made so far, so
  the result is the tree as it stands together with the exception, if one was raised.
\<close>

fun backup_loop :: "real \<Rightarrow> ref list \<Rightarrow> node \<Rightarrow> error option \<times> node" where
  "backup_loop discount_factor [] rt = (None, rt)"
| "backup_loop discount_factor (p # ps) rt =
     (case visit discount_factor rt p of
        Inl e \<Rightarrow> (Some e, rt)
      | Inr rt' \<Rightarrow> backup_loop discount_factor ps rt')"

definition compute_return :: "tree \<Rightarrow> real \<Rightarrow> error option \<times> tree" where
  "compute_return t discount_factor =
     (case backup_loop discount_factor (iter_breadth_first_reverse t False True) (tree_root t) of
        (e, rt') \<Rightarrow> (e, t\<lparr>tree_root := rt'\<rparr>))"

text \<open>The dictionary of the node object at a position, if there is one.\<close>

definition data_at :: "ref \<Rightarrow> node \<Rightarrow> node_data option" where
  "data_at p rt = map_option data (node_at p rt)"

section \<open>Policy extraction (online\_planning.py, softmax\_Q\_tree\_policy)\<close>

text \<open>
  An entry of the \<open>float32\<close> array \<open>Q\<close>: minus infinity, as \<open>Q.fill(-np.inf)\<close> leaves it, a
  finite single-precision number, or plus infinity.
\<close>

datatype logit = NegInf | Fin real | PosInf

text \<open>
  The store of a Python float into a \<open>float32\<close> array: rounding to the nearest
  single-precision number, ties to the even significand, with 24 significant bits, the
  smallest exponent \<open>-126\<close> (below it the spacing stays \<open>2 powi (-149)\<close>), and overflow
  to an infinity from \<open>2 ^ 128\<close> on.
\<close>

definition round_half_even :: "real \<Rightarrow> int" where
  "round_half_even q =
     (let f = \<lfloor>q\<rfloor>; d = q - of_int f
      in if d < 1 / 2 then f else if 1 / 2 < d then f + 1 else if even f then f else f + 1)"

definition float32 :: "real \<Rightarrow> logit" where
  "float32 x =
     (if x = 0 then Fin 0
      else
        (let e = max \<lfloor>log 2 \<bar>x\<bar>\<rfloor> (- 126);
             ulp = 2 powi (e - 23);
             y = of_int (round_half_even (x / ulp)) * ulp
         in if 2 ^ 128 \<le> \<bar>y\<bar> then (if 0 < x then PosInf else NegInf) else Fin y))"

text \<open>
  Modelled from the spec: \<open>utils.softmax\<close> is not among the sources. The spec has a softmax
  with a temperature under which a minus-infinity logit "saturates to 0 ... for any finite
  temperature", and temperature 0 as the limiting "hard-max with ties broken uniformly".
  Where no probability vector exists (every logit minus infinity at a nonzero temperature,
  or no logit at all) the spec leaves the result open, and it says nothing of a
  plus-infinity logit at a nonzero temperature; the quotient below is then a quotient by
  zero, or ignores the infinite logit, and no property is stated of either.
\<close>

fun logit_max :: "logit \<Rightarrow> logit \<Rightarrow> logit" where
  "logit_max NegInf y = y"
| "logit_max x NegInf = x"
| "logit_max PosInf y = PosInf"
| "logit_max x PosInf = PosInf"
| "logit_max (Fin x) (Fin y) = Fin (max x y)"

definition hard_max :: "logit list \<Rightarrow> real list" where
  "hard_max q =
     (let m = fold logit_max q NegInf;
          hits = map (\<lambda>x. if x = m then 1 else 0) q
      in map (\<lambda>h. h / sum_list hits) hits)"

fun weight :: "real \<Rightarrow> logit \<Rightarrow> real" where
  "weight temp NegInf = 0"
| "weight temp (Fin x) = exp (x / temp)"
| "weight temp PosInf = 0"

definition softmax :: "logit list \<Rightarrow> real \<Rightarrow> real list" where
  "softmax q temp =
     (if temp = 0 then hard_max q
      else (let w = map (weight temp) q in map (\<lambda>x. x / sum_list w) w))"

text \<open>
  The loop \<open>for child in tree.root.children: Q[child.data["a"]] = child.data["R"]\<close>. The
  right-hand side is evaluated first, then the index. The store rounds to single precision.
  A negative index counts from the end of the array, and an index outside the array on
  either side raises \<open>IndexError\<close>.
\<close>

fun fill_Q :: "node list \<Rightarrow> logit list \<Rightarrow> error + logit list" where
  "fill_Q [] Q = Inr Q"
| "fill_Q (child # rest) Q =
     (case data_R (data child) of
        None \<Rightarrow> Inl (KeyError ''R'')
      | Some v \<Rightarrow>
          (case data_a (data child) of
             None \<Rightarrow> Inl (KeyError ''a'')
           | Some act \<Rightarrow>
               (let n = int (length Q); i = (if act < 0 then act + n else act)
                in if 0 \<le> i \<and> i < n then fill_Q rest (Q[nat i := float32 v])
                   else Inl IndexError)))"

text \<open>
  The backup runs first and mutates the tree, so the tree is part of the result, also when
  an exception leaves the function.
\<close>

definition softmax_Q_tree_policy ::
  "tree \<Rightarrow> nat \<Rightarrow> real \<Rightarrow> real \<Rightarrow> (error + real list) \<times> tree" where
  "softmax_Q_tree_policy t n_actions discount_factor temp =
     (case compute_return t discount_factor of
        (Some e, t') \<Rightarrow> (Inl e, t')
      | (None, t') \<Rightarrow>
          (case fill_Q (children (tree_root t')) (replicate n_actions NegInf) of
             Inl e \<Rightarrow> (Inl e, t')
           | Inr Q \<Rightarrow> (Inr (softmax Q temp), t')))"

section \<open>The tree, the actor and the planner\<close>

text \<open>
  Modelled from the spec: \<open>Tree.__len__\<close> is not among the sources. The length of a tree is
  the number of its nodes.
\<close>

fun tree_size :: "node \<Rightarrow> nat" where
  "tree_size (Node d cs) = Suc (sum_list (map tree_size cs))"

definition len :: "tree \<Rightarrow> nat" where
  "len t = tree_size (tree_root t)"

text \<open>
  Modelled from the spec: adding a node to the tree is not among the sources. The new node
  becomes the last child of the node at the given position.
\<close>

primrec add_child :: "ref \<Rightarrow> node \<Rightarrow> node \<Rightarrow> node" where
  "add_child [] c n = Node (data n) (children n @ [c])"
| "add_child (i # p) c n =
     (if i < length (children n)
      then Node (data n) ((children n)[i := add_child p c (children n ! i)])
      else n)"

text \<open>
  Modelled from the spec: the class \<open>TreeActor\<close> is not among the sources. The actor owns
  the live tree and the simulator; the simulator with the feature extractor maps its state,
  the dictionary of the parent node and an action to the dictionary of the child and its
  next state.
\<close>

record 's actor =
  actor_tree :: tree
  actor_env :: 's

type_synonym 's simulator = "'s \<Rightarrow> node_data \<Rightarrow> nat \<Rightarrow> node_data \<times> 's"

text \<open>
  Modelled from the spec: \<open>TreeActor.generate_successor\<close> is not among the sources. It steps
  the simulator from the parent, records the arrival action and adds the child to the tree;
  the result is the position and the dictionary of the child, and the actor. The parent is a
  node object of the tree in the source; a position that is no node of the tree gives
  \<open>None\<close>.
\<close>

definition generate_successor ::
  "'s simulator \<Rightarrow> 's actor \<Rightarrow> ref \<Rightarrow> nat \<Rightarrow> (ref \<times> node_data \<times> 's actor) option" where
  "generate_successor env_step actor p act =
     (case node_at p (tree_root (actor_tree actor)) of
        None \<Rightarrow> None
      | Some n \<Rightarrow>
          (case env_step (actor_env actor) (data n) act of
             (d, env') \<Rightarrow>
               Some (p @ [length (children n)], d\<lparr>data_a := Some (int act)\<rparr>,
                 actor\<lparr>actor_tree := (actor_tree actor)
                          \<lparr>tree_root := add_child p (Node (d\<lparr>data_a := Some (int act)\<rparr>) [])
                                           (tree_root (actor_tree actor))\<rparr>,
                       actor_env := env'\<rparr>)))"

text \<open>
  Modelled from the spec: the selection of \<open>RolloutIW\<close> is not among the sources. The spec
  descends from the root along one trajectory, choosing an action at each node, "until
  reaching a node with no existing child for that action"; a terminal node and a node pruned
  as not novel are dead ends. Actions are tried in the fixed order \<open>0, 1, ...\<close>, the spec's
  fall-back order: the first action of a node either has no child yet, and is the one to
  expand, or leads to a child below which the search goes on; when that child's subtree has
  nothing left to expand, the next action is tried. The result is \<open>None\<close> when nothing is
  left to expand below the node.
\<close>

function expand_node :: "nat \<Rightarrow> ref list \<Rightarrow> ref \<Rightarrow> node \<Rightarrow> (ref \<times> nat) option"
  and expand_actions :: "nat \<Rightarrow> ref list \<Rightarrow> ref \<Rightarrow> node \<Rightarrow> nat list \<Rightarrow> (ref \<times> nat) option" where
  "expand_node bf pruned p n =
     (if data_done (data n) = Some True \<or> p \<in> set pruned then None
      else expand_actions bf pruned p n [0..<bf])"
| "expand_actions bf pruned p n [] = None"
| "expand_actions bf pruned p n (act # acts) =
     (let i = length (takeWhile (\<lambda>c. data_a (data c) \<noteq> Some (int act)) (children n))
      in if i < length (children n)
         then (case expand_node bf pruned (p @ [i]) (children n ! i) of
                 Some r \<Rightarrow> Some r
               | None \<Rightarrow> expand_actions bf pruned p n acts)
         else Some (p, act))"
  by pat_completeness auto
termination
proof (relation "inv_image (less_than <*lex*> less_than)
    (\<lambda>x. case x of
           Inl (bf, pruned, p, n) \<Rightarrow> (size n, Suc bf)
         | Inr (bf, pruned, p, n, acts) \<Rightarrow> (size n, length acts))", goal_cases)
  case 1
  show ?case by auto
next
  case 2
  show ?case by simp
next
  case (3 bf pruned p n act acts i)
  then have "children n ! i \<in> set (children n)" by simp
  then have "size (children n ! i) < size n"
    by (cases n) (auto simp: less_Suc_eq_le size_list_estimation')
  then show ?case by simp
next
  case 4
  show ?case by simp
qed

text \<open>
  Modelled from the spec: a rollout starts from the tree root, with the branching factor of
  the tree as the number of actions.
\<close>

definition select_expansion :: "ref list \<Rightarrow> tree \<Rightarrow> (ref \<times> nat) option" where
  "select_expansion pruned t = expand_node (branching_factor t) pruned [] (tree_root t)"

text \<open>
  Modelled from the spec: \<open>RolloutIW.plan\<close> is not among the sources. The spec repeats until
  the stop condition holds: select a node and an action that has no child yet, call the
  successor function, test the new node for novelty and make it a dead end if it is not
  novel; the stop condition is checked between single expansions, and a planner that has
  nothing left to expand (every frontier node terminal or not novel) stops by itself. The
  novelty table is the oracle of the spec: \<open>is_novel\<close> takes the table, the position and the
  dictionary of the new node and gives the verdict and the table with the node's features
  marked. A run that never stops is \<open>None\<close>; a selected position that is no node of the
  tree, which no node object of the source is, ends the run.
\<close>

partial_function (option) plan ::
  "('x \<Rightarrow> ref \<Rightarrow> node_data \<Rightarrow> bool \<times> 'x) \<Rightarrow> 's simulator \<Rightarrow> ('s actor \<Rightarrow> bool)
     \<Rightarrow> 'x \<Rightarrow> ref list \<Rightarrow> 's actor \<Rightarrow> (('x \<times> ref list) \<times> 's actor) option" where
  "plan is_novel env_step stop_condition_fn table pruned actor =
     (if stop_condition_fn actor then Some ((table, pruned), actor)
      else
        (case select_expansion pruned (actor_tree actor) of
           None \<Rightarrow> Some ((table, pruned), actor)
         | Some (p, act) \<Rightarrow>
             (case generate_successor env_step actor p act of
                None \<Rightarrow> Some ((table, pruned), actor)
              | Some (q, d, actor') \<Rightarrow>
                  (case is_novel table q d of
                     (novel, table') \<Rightarrow>
                       plan is_novel env_step stop_condition_fn table'
                         (if novel then pruned else q # pruned) actor'))))"

text \<open>
  Modelled from the spec: the novelty table of width 1, kept per depth. A node is novel if
  one of its (depth, feature index, feature value) triples is not in the table; its triples
  are marked in either case, the spec's canonical rule.
\<close>

definition feature_atoms :: "ref \<Rightarrow> node_data \<Rightarrow> (nat \<times> nat \<times> int) list" where
  "feature_atoms q d =
     (case data_features d of
        None \<Rightarrow> []
      | Some fs \<Rightarrow> map (\<lambda>i. (length q, i, fs ! i)) [0..<length fs])"

definition iw1_is_novel ::
  "(nat \<times> nat \<times> int) list \<Rightarrow> ref \<Rightarrow> node_data \<Rightarrow> bool \<times> (nat \<times> nat \<times> int) list" where
  "iw1_is_novel table q d =
     (list_ex (\<lambda>x. x \<notin> set table) (feature_atoms q d), table @ feature_atoms q d)"

text \<open>
  Modelled from the spec: \<open>TreeActor.step\<close> is not among the sources. The actor commits to an
  action: the child of the root for that action becomes the new root (it is generated first
  if the tree has none), with its subtree when \<open>cache_subtree\<close> is set and alone otherwise.
  The call returns the dictionaries of the old and of the new root.
\<close>

definition actor_step ::
  "'s simulator \<Rightarrow> 's actor \<Rightarrow> nat \<Rightarrow> bool \<Rightarrow> (node_data \<times> node_data) \<times> 's actor" where
  "actor_step env_step actor act cache_subtree =
     (let rt = tree_root (actor_tree actor);
          (next_node, env') =
            (case find (\<lambda>c. data_a (data c) = Some (int act)) (children rt) of
               Some c \<Rightarrow> (c, actor_env actor)
             | None \<Rightarrow>
                 (case env_step (actor_env actor) (data rt) act of
                    (d, e) \<Rightarrow> (Node (d\<lparr>data_a := Some (int act)\<rparr>) [], e)));
          new_root = (if cache_subtree then next_node else Node (data next_node) [])
      in ((data rt, data next_node),
          actor\<lparr>actor_tree := (actor_tree actor)\<lparr>tree_root := new_root\<rparr>, actor_env := env'\<rparr>))"

section \<open>Planning step (online\_planning\_learning.py, planning\_step)\<close>

text \<open>A record of the dataset: the dictionary that \<open>dataset.append\<close> receives.\<close>

record transition =
  observations :: "real list"
  target_policy :: "real list"

text \<open>
  \<open>planner\<close> and \<open>actor\<close> are arguments of the function: the planner is any function from
  the actor's state, the stop condition and the policy function to the actor's state after
  planning (\<open>None\<close> if it never returns, an exception if it raises), and \<open>sample_pmf\<close>, which
  draws at random in the source, is any function from the policy to an action. Each
  exception leaves the function with the state and the dataset as they are at that point.
\<close>

definition planning_step ::
  "('s actor \<Rightarrow> ('s actor \<Rightarrow> bool) \<Rightarrow> 'pf \<Rightarrow> (error option \<times> 's actor) option)
     \<Rightarrow> (real list \<Rightarrow> nat) \<Rightarrow> 's simulator
     \<Rightarrow> 's actor \<Rightarrow> transition list \<Rightarrow> 'pf \<Rightarrow> int \<Rightarrow> bool \<Rightarrow> real
     \<Rightarrow> ((error + real \<times> bool) \<times> 's actor \<times> transition list) option" where
  "planning_step planner_plan sample_pmf env_step actor dataset policy_fn tree_budget
       cache_subtree discount_factor =
     (let nodes_before_planning = len (actor_tree actor);
          budget_fn = (\<lambda>a. int (len (actor_tree a)) - int nodes_before_planning = tree_budget)
      in case planner_plan actor budget_fn policy_fn of
           None \<Rightarrow> None
         | Some (Some e, actor1) \<Rightarrow> Some (Inl e, actor1, dataset)
         | Some (None, actor1) \<Rightarrow>
             (case softmax_Q_tree_policy (actor_tree actor1)
                     (branching_factor (actor_tree actor1)) discount_factor 0 of
                (Inl e, t2) \<Rightarrow> Some (Inl e, actor1\<lparr>actor_tree := t2\<rparr>, dataset)
              | (Inr tree_policy, t2) \<Rightarrow>
                  (let act = sample_pmf tree_policy
                   in case actor_step env_step (actor1\<lparr>actor_tree := t2\<rparr>) act cache_subtree of
                        ((prev_root_data, current_root_data), actor2) \<Rightarrow>
                          (case data_obs prev_root_data of
                             None \<Rightarrow> Some (Inl (KeyError ''obs''), actor2, dataset)
                           | Some obs \<Rightarrow>
                               (let dataset' = dataset @ [\<lparr>observations = obs,
                                                           target_policy = tree_policy\<rparr>]
                                in case data_r current_root_data of
                                     None \<Rightarrow> Some (Inl (KeyError ''r''), actor2, dataset')
                                   | Some rew \<Rightarrow>
                                       (case data_done current_root_data of
                                          None \<Rightarrow> Some (Inl (KeyError ''done''), actor2, dataset')
                                        | Some dn \<Rightarrow> Some (Inr (rew, dn), actor2, dataset')))))))"

section \<open>Well-formed inputs and example trees\<close>

text \<open>
  Every node that the backup visits (every node but the root) has a reward: the successor
  function sets \<open>"r"\<close> on each node it creates.
\<close>

definition rewards_defined :: "tree \<Rightarrow> bool" where
  "rewards_defined t =
     list_all (\<lambda>p. case node_at p (tree_root t) of
                      None \<Rightarrow> False
                    | Some n \<Rightarrow> data_r (data n) \<noteq> None)
       (iter_breadth_first_reverse t False True)"

definition root_data :: node_data where
  "root_data = \<lparr>data_r = None, data_R = None, data_a = None,
                 data_done = Some False, data_obs = Some [0], data_features = Some [0]\<rparr>"

definition new_data :: "int \<Rightarrow> real \<Rightarrow> node_data" where
  "new_data act rew = \<lparr>data_r = Some rew, data_R = None, data_a = Some act,
                       data_done = Some False, data_obs = Some [1], data_features = Some [1]\<rparr>"

definition example_tree :: tree where
  "example_tree =
     \<lparr>tree_root = Node root_data
        [Node (new_data 0 0) [Node (new_data 0 1) []],
         Node (new_data 1 0) [Node (new_data 0 0) []]],
      branching_factor = 2\<rparr>"

definition single_node_tree :: tree where
  "single_node_tree =
     \<lparr>tree_root = Node (root_data\<lparr>data_r := Some 1\<rparr>) [], branching_factor = 2\<rparr>"

text \<open>
  The tree of the spec's worked example: two children of the root, reached by actions 0 and
  1 with reward 0, each with one child, of reward 1 below action 0 and of reward 0 below
  action 1. Everything else in the dictionaries is arbitrary.
\<close>

definition two_step_tree ::
  "node_data \<Rightarrow> node_data \<Rightarrow> node_data \<Rightarrow> node_data \<Rightarrow> node_data \<Rightarrow> tree" where
  "two_step_tree d0 x0 y0 x1 y1 =
     \<lparr>tree_root = Node d0
        [Node (x0\<lparr>data_r := Some 0, data_a := Some 0\<rparr>) [Node (y0\<lparr>data_r := Some 1\<rparr>) []],
         Node (x1\<lparr>data_r := Some 0, data_a := Some 1\<rparr>) [Node (y1\<lparr>data_r := Some 0\<rparr>) []]],
      branching_factor = 2\<rparr>"

text \<open>A root with one leaf child, reached by the given action with the given reward.\<close>

definition one_child_tree :: "int \<Rightarrow> real \<Rightarrow> tree" where
  "one_child_tree act rew =
     \<lparr>tree_root = Node root_data [Node (new_data act rew) []], branching_factor = 3\<rparr>"

text \<open>
  A simulator in which every step ends the episode with reward 0, together with a feature
  extractor that reports the action taken.
\<close>

definition terminal_env :: "unit simulator" where
  "terminal_env s d act =
     (\<lparr>data_r = Some 0, data_R = None, data_a = None, data_done = Some True,
       data_obs = Some [2], data_features = Some [int act]\<rparr>, s)"

text \<open>
  For the example of a planning step: the planner of the spec with the width-1 novelty
  table, as the planner object that \<open>planning_step\<close> receives, a sampler that returns the
  first action of positive probability, and an actor whose tree is a single root.
\<close>

definition rollout_planner ::
  "unit actor \<Rightarrow> (unit actor \<Rightarrow> bool) \<Rightarrow> unit \<Rightarrow> (error option \<times> unit actor) option" where
  "rollout_planner actor stop_condition_fn policy_fn =
     map_option (\<lambda>(state, actor'). (None, actor'))
       (plan iw1_is_novel terminal_env stop_condition_fn [] [] actor)"

definition sample_first :: "real list \<Rightarrow> nat" where
  "sample_first pmf = length (takeWhile (\<lambda>x. x \<le> 0) pmf)"

definition root_actor :: "unit actor" where
  "root_actor = \<lparr>actor_tree = single_node_tree, actor_env = ()\<rparr>"

text \<open>
  The tree that this planner leaves when it starts from the single root: both actions of
  the root are tried and both children are terminal.
\<close>

definition planned_tree :: tree where
  "planned_tree =
     \<lparr>tree_root = Node (root_data\<lparr>data_r := Some 1\<rparr>)
        [Node (fst (terminal_env () root_data 0)\<lparr>data_a := Some 0\<rparr>) [],
         Node (fst (terminal_env () root_data 1)\<lparr>data_a := Some 1\<rparr>) []],
      branching_factor = 2\<rparr>"

section \<open>The node store\<close>

lemma node_at_set_data_None:
  "node_at p (set_data f q rt) = None \<longleftrightarrow> node_at p rt = None"
  apply (induction q arbitrary: p rt)
   apply (case_tac p; simp)
  apply (case_tac p; simp add: nth_list_update)
  done

lemma data_at_set_data:
  "data_at p (set_data f q rt) = (if p = q then map_option f (data_at p rt) else data_at p rt)"
  unfolding data_at_def
  apply (induction q arbitrary: p rt)
   apply (case_tac p; simp)
  apply (case_tac p; simp add: nth_list_update)
  done

lemma arity_at_set_data:
  "map_option (\<lambda>n. length (children n)) (node_at p (set_data f q rt))
     = map_option (\<lambda>n. length (children n)) (node_at p rt)"
  apply (induction q arbitrary: p rt)
   apply (case_tac p; simp)
  apply (case_tac p; simp add: nth_list_update)
  done

lemma node_at_snoc:
  "node_at (p @ [i]) rt =
     (case node_at p rt of None \<Rightarrow> None
      | Some n \<Rightarrow> if i < length (children n) then Some (children n ! i) else None)"
  by (induction p arbitrary: rt) auto

lemma level_set_data: "level d (set_data f q rt) = level d rt"
proof (induction d arbitrary: q rt)
  case 0
  show ?case by simp
next
  case (Suc d)
  show ?case
  proof (cases q)
    case Nil
    then show ?thesis by simp
  next
    case (Cons j q')
    have h: "level d ((children rt)[j := set_data f q' (children rt ! j)] ! i)
               = level d (children rt ! i)"
      if "i < length (children rt)" for i
      using that by (cases "j < length (children rt)") (simp_all add: nth_list_update Suc.IH)
    show ?thesis unfolding Cons
      by (auto intro!: arg_cong [where f = concat] map_cong [OF refl] simp: h)
  qed
qed

lemma max_depth_eq: "max_depth n = foldr max (map (\<lambda>c. Suc (max_depth c)) (children n)) 0"
  by (cases n) simp

lemma max_depth_set_data: "max_depth (set_data f q rt) = max_depth rt"
proof (induction q arbitrary: rt)
  case Nil
  show ?case by (simp add: max_depth_eq [of "Node _ _"] max_depth_eq [of rt, symmetric])
next
  case (Cons i q)
  show ?case
  proof (cases "i < length (children rt)")
    case True
    have "map (\<lambda>c. Suc (max_depth c)) ((children rt)[i := set_data f q (children rt ! i)])
        = map (\<lambda>c. Suc (max_depth c)) (children rt)"
      using True by (simp add: map_update Cons.IH list_update_same_conv)
    then show ?thesis using True
      by (simp add: max_depth_eq [of "Node _ _"] max_depth_eq [of rt, symmetric])
  next
    case False
    then show ?thesis by simp
  qed
qed

section \<open>The traversal order\<close>

lemma level_iff: "p \<in> set (level d n) \<longleftrightarrow> length p = d \<and> node_at p n \<noteq> None"
proof (induction d arbitrary: p n)
  case 0
  show ?case by (cases p) auto
next
  case (Suc d)
  show ?case
  proof (cases p)
    case Nil
    then show ?thesis by auto
  next
    case (Cons i q)
    have "i # q \<in> set (level (Suc d) n)
            \<longleftrightarrow> i < length (children n) \<and> q \<in> set (level d (children n ! i))"
      by auto
    then show ?thesis unfolding Cons by (simp add: Suc.IH)
  qed
qed

lemma distinct_concat_map_cons:
  "(\<And>i. distinct (g i)) \<Longrightarrow> distinct js \<Longrightarrow>
   distinct (concat (map (\<lambda>i. map ((#) i) (g i)) js))"
  by (induction js) (auto simp: distinct_map)

lemma level_distinct: "distinct (level d n)"
  by (induction d arbitrary: n) (auto intro!: distinct_concat_map_cons)

lemma foldr_max_ge: "x \<in> set xs \<Longrightarrow> x \<le> foldr max xs (0::nat)"
  by (induction xs) (auto simp: max_def)

lemma node_at_depth: "node_at p n = Some m \<Longrightarrow> length p \<le> max_depth n"
proof (induction p arbitrary: n)
  case Nil
  show ?case by simp
next
  case (Cons i p)
  from Cons.prems have i: "i < length (children n)" and at: "node_at p (children n ! i) = Some m"
    by (auto split: if_splits)
  have "Suc (max_depth (children n ! i)) \<in> set (map (\<lambda>c. Suc (max_depth c)) (children n))"
    using i by auto
  then have "Suc (max_depth (children n ! i)) \<le> max_depth n"
    by (subst (2) max_depth_eq) (rule foldr_max_ge)
  with Cons.IH [OF at] show ?case by simp
qed

lemma levels_distinct:
  "distinct ds \<Longrightarrow> distinct (concat (map (\<lambda>d. level d n) ds))"
  by (induction ds) (auto simp: level_distinct level_iff)

lemma sorted_wrt_all:
  "(\<And>x y. x \<in> set xs \<Longrightarrow> y \<in> set xs \<Longrightarrow> P x y) \<Longrightarrow> sorted_wrt P xs"
  by (induction xs) auto

lemma levels_sorted:
  "sorted_wrt (\<lambda>a b. b \<le> a) ds \<Longrightarrow>
   sorted_wrt (\<lambda>p q. length q \<le> length p) (concat (map (\<lambda>d. level d n) ds))"
  by (induction ds) (auto simp: sorted_wrt_append level_iff intro!: sorted_wrt_all)

lemma iter_eq:
  "iter_breadth_first_reverse t False True
     = concat (map (\<lambda>d. level d (tree_root t)) (rev [1..<Suc (max_depth (tree_root t))]))"
  by (simp add: iter_breadth_first_reverse_def)

lemma iter_set:
  "set (iter_breadth_first_reverse t False True) = {p. p \<noteq> [] \<and> node_at p (tree_root t) \<noteq> None}"
proof -
  have "p \<in> set (concat (map (\<lambda>d. level d (tree_root t)) (rev [1..<Suc (max_depth (tree_root t))])))
          \<longleftrightarrow> p \<noteq> [] \<and> node_at p (tree_root t) \<noteq> None" for p
  proof -
    have "p \<in> set (concat (map (\<lambda>d. level d (tree_root t)) (rev [1..<Suc (max_depth (tree_root t))])))
          \<longleftrightarrow> (1 \<le> length p \<and> length p < Suc (max_depth (tree_root t)))
                \<and> node_at p (tree_root t) \<noteq> None"
      by (simp add: level_iff del: upt_Suc)
    moreover have "length p \<le> max_depth (tree_root t)" if "node_at p (tree_root t) \<noteq> None"
      using that node_at_depth by blast
    moreover have "1 \<le> length p \<longleftrightarrow> p \<noteq> []"
      by (cases p) auto
    ultimately show ?thesis by auto
  qed
  then show ?thesis unfolding iter_eq by blast
qed

lemma iter_distinct: "distinct (iter_breadth_first_reverse t False True)"
  unfolding iter_eq by (rule levels_distinct) simp

lemma iter_sorted:
  "sorted_wrt (\<lambda>p q. length q \<le> length p) (iter_breadth_first_reverse t False True)"
  unfolding iter_eq by (rule levels_sorted) (simp add: sorted_wrt_rev del: upt_Suc)

section \<open>One visit and the whole loop\<close>

lemma data_at_Some: "data_at p rt = Some d \<longleftrightarrow> (\<exists>n. node_at p rt = Some n \<and> data n = d)"
  by (auto simp: data_at_def)

lemma data_at_child:
  "node_at p rt = Some n \<Longrightarrow> i < length (children n) \<Longrightarrow>
   data_at (p @ [i]) rt = Some (data (children n ! i))"
  by (simp add: data_at_def node_at_snoc)

lemma data_at_child_None:
  "node_at p rt = Some n \<Longrightarrow> \<not> i < length (children n) \<Longrightarrow> data_at (p @ [i]) rt = None"
  by (simp add: data_at_def node_at_snoc)

lemma set_data_id: "node_at p rt = Some n \<Longrightarrow> f (data n) = data n \<Longrightarrow> set_data f p rt = rt"
proof (induction p arbitrary: rt)
  case Nil
  then show ?case by (cases rt) simp
next
  case (Cons i p)
  then show ?case by (cases rt) (auto split: if_splits)
qed

lemma those_map_Some:
  "\<forall>x\<in>set xs. f x \<noteq> None \<Longrightarrow> those (map f xs) = Some (map (\<lambda>x. the (f x)) xs)"
  by (induction xs) auto

lemma those_map_eq_Some:
  "those (map f xs) = Some ys \<Longrightarrow> ys = map (\<lambda>x. the (f x)) xs \<and> (\<forall>x\<in>set xs. f x \<noteq> None)"
  by (induction xs arbitrary: ys) (auto split: option.splits)

lemma np_max_eq: "np_max xs = Inr m \<Longrightarrow> xs \<noteq> [] \<and> m = Max (set xs)"
  by (cases xs) (auto simp: Max.set_eq_fold [symmetric])

lemma node_return_cong:
  "data_r (data n) = data_r (data m) \<Longrightarrow>
   map (\<lambda>c. data_R (data c)) (children n) = map (\<lambda>c. data_R (data c)) (children m) \<Longrightarrow>
   node_return g n = node_return g m"
proof -
  assume a: "data_r (data n) = data_r (data m)"
    and b: "map (\<lambda>c. data_R (data c)) (children n) = map (\<lambda>c. data_R (data c)) (children m)"
  from b have h: "(children n = []) = (children m = [])"
    by (metis map_is_Nil_conv)
  show ?thesis unfolding node_return_def is_leaf_def a b h ..
qed

lemma node_return_defined:
  assumes "data_r (data n) \<noteq> None" "\<And>c. c \<in> set (children n) \<Longrightarrow> data_R (data c) \<noteq> None"
  shows "\<exists>v. node_return g n = Inr v"
proof -
  obtain rv where rv: "data_r (data n) = Some rv" using assms(1) by auto
  show ?thesis
  proof (cases "children n")
    case Nil
    then show ?thesis by (simp add: node_return_def is_leaf_def rv)
  next
    case (Cons c cs)
    have "those (map (\<lambda>c. data_R (data c)) (children n))
            = Some (map (\<lambda>c. the (data_R (data c))) (children n))"
      by (rule those_map_Some) (simp add: assms(2))
    then show ?thesis using Cons by (simp add: node_return_def is_leaf_def rv)
  qed
qed

lemma node_return_bellman:
  assumes "node_return g n = Inr v"
  shows "(is_leaf n \<longrightarrow> data_r (data n) = Some v) \<and>
         (\<not> is_leaf n \<longrightarrow>
            (\<forall>c\<in>set (children n). data_R (data c) \<noteq> None) \<and>
            (\<exists>rv. data_r (data n) = Some rv \<and>
                  v = rv + g * Max ((\<lambda>c. the (data_R (data c))) ` set (children n))))"
proof (cases "is_leaf n")
  case True
  with assms show ?thesis by (auto simp: node_return_def split: option.splits)
next
  case False
  from assms False obtain rv rs m where rv: "data_r (data n) = Some rv"
    and rs: "those (map (\<lambda>c. data_R (data c)) (children n)) = Some rs"
    and m: "np_max rs = Inr m" and v: "v = rv + g * m"
    by (auto simp: node_return_def split: option.splits sum.splits)
  from those_map_eq_Some [OF rs] have rs_eq: "rs = map (\<lambda>c. the (data_R (data c))) (children n)"
    and def: "\<forall>c\<in>set (children n). data_R (data c) \<noteq> None" by auto
  from np_max_eq [OF m] have "m = Max (set rs)" by simp
  then have "m = Max ((\<lambda>c. the (data_R (data c))) ` set (children n))"
    by (simp add: rs_eq)
  with False rv def v show ?thesis by simp
qed

lemma ret_at_cong:
  assumes "node_at p rt = Some n" "node_at p rt1 = Some n1"
    and "length (children n1) = length (children n)"
    and "data_r (data n1) = data_r (data n)"
    and "\<And>i. map_option data_R (data_at (p @ [i]) rt1) = map_option data_R (data_at (p @ [i]) rt)"
  shows "node_return g n1 = node_return g n"
proof (rule node_return_cong)
  show "data_r (data n1) = data_r (data n)" by fact
  show "map (\<lambda>c. data_R (data c)) (children n1) = map (\<lambda>c. data_R (data c)) (children n)"
  proof (rule nth_equalityI)
    show "length (map (\<lambda>c. data_R (data c)) (children n1))
            = length (map (\<lambda>c. data_R (data c)) (children n))"
      using assms(3) by simp
  next
    fix i assume "i < length (map (\<lambda>c. data_R (data c)) (children n1))"
    then have i1: "i < length (children n1)" and i: "i < length (children n)"
      using assms(3) by simp_all
    from assms(5) [of i] show "map (\<lambda>c. data_R (data c)) (children n1) ! i
             = map (\<lambda>c. data_R (data c)) (children n) ! i"
      using i i1 by (simp add: data_at_child [OF assms(1) i] data_at_child [OF assms(2) i1])
  qed
qed

lemma visit_Inr:
  "visit g rt p = Inr rt1 \<Longrightarrow>
   \<exists>n v. node_at p rt = Some n \<and> node_return g n = Inr v
        \<and> rt1 = set_data (\<lambda>d. d\<lparr>data_R := Some v\<rparr>) p rt"
  by (auto simp: visit_def split: option.splits sum.splits)

lemma backup_loop_preserves:
  assumes "backup_loop g ps rt = (e, rt')" and "Q rt"
    and "\<And>p v r. p \<in> set ps \<Longrightarrow> Q r \<Longrightarrow> Q (set_data (\<lambda>d. d\<lparr>data_R := Some v\<rparr>) p r)"
  shows "Q rt'"
  using assms
proof (induction ps arbitrary: rt)
  case Nil
  then show ?case by simp
next
  case (Cons x ps)
  show ?case
  proof (cases "visit g rt x")
    case (Inl err)
    with Cons.prems show ?thesis by simp
  next
    case (Inr rt1)
    from visit_Inr [OF Inr] obtain v where rt1: "rt1 = set_data (\<lambda>d. d\<lparr>data_R := Some v\<rparr>) x rt"
      by blast
    have "Q rt1" unfolding rt1 by (rule Cons.prems(3)) (simp_all add: Cons.prems(2))
    moreover have "backup_loop g ps rt1 = (e, rt')" using Cons.prems(1) Inr by simp
    ultimately show ?thesis using Cons.IH Cons.prems(3) by simp
  qed
qed

lemma backup_loop_valid:
  "backup_loop g ps rt = (e, rt') \<Longrightarrow> (node_at q rt' = None) = (node_at q rt = None)"
  by (erule backup_loop_preserves) (simp_all add: node_at_set_data_None)

lemma backup_loop_arity:
  "backup_loop g ps rt = (e, rt') \<Longrightarrow>
   map_option (\<lambda>n. length (children n)) (node_at q rt')
     = map_option (\<lambda>n. length (children n)) (node_at q rt)"
  by (erule backup_loop_preserves) (simp_all add: arity_at_set_data)

lemma backup_loop_level:
  "backup_loop g ps rt = (e, rt') \<Longrightarrow> level d rt' = level d rt"
  by (erule backup_loop_preserves) (simp_all add: level_set_data)

lemma backup_loop_max_depth:
  "backup_loop g ps rt = (e, rt') \<Longrightarrow> max_depth rt' = max_depth rt"
  by (erule backup_loop_preserves) (simp_all add: max_depth_set_data)

lemma backup_loop_untouched:
  "backup_loop g ps rt = (e, rt') \<Longrightarrow> q \<notin> set ps \<Longrightarrow> data_at q rt' = data_at q rt"
  by (erule backup_loop_preserves) (auto simp: data_at_set_data)

lemma backup_loop_only_R:
  "backup_loop g ps rt = (e, rt') \<Longrightarrow>
   map_option (\<lambda>d. d\<lparr>data_R := x\<rparr>) (data_at q rt') = map_option (\<lambda>d. d\<lparr>data_R := x\<rparr>) (data_at q rt)"
  by (erule backup_loop_preserves) (auto simp: data_at_set_data option.map_comp comp_def)

lemma child_not_later:
  assumes "sorted_wrt (\<lambda>p q. length q \<le> length p) (x # ps)"
  shows "x @ [i] \<notin> set (x # ps)"
proof
  assume "x @ [i] \<in> set (x # ps)"
  then have "x @ [i] \<in> set ps" by simp
  with assms have "length (x @ [i]) \<le> length x" by auto
  then show False by simp
qed

lemma backup_loop_ok:
  assumes "distinct ps" and "sorted_wrt (\<lambda>p q. length q \<le> length p) ps"
    and "\<forall>p\<in>set ps. \<exists>n. node_at p rt = Some n \<and> data_r (data n) \<noteq> None \<and>
           (\<forall>i<length (children n). p @ [i] \<in> set ps \<or> data_R (data (children n ! i)) \<noteq> None)"
  shows "\<exists>rt'. backup_loop g ps rt = (None, rt') \<and>
           (\<forall>p\<in>set ps. \<exists>n' v. node_at p rt' = Some n' \<and> node_return g n' = Inr v
                              \<and> data_R (data n') = Some v)"
  using assms
proof (induction ps arbitrary: rt)
  case Nil
  show ?case by simp
next
  case (Cons x ps)
  from Cons.prems(1) have xps: "x \<notin> set ps" and dist: "distinct ps" by simp_all
  from Cons.prems(2) have sorted: "sorted_wrt (\<lambda>p q. length q \<le> length p) ps" by simp
  note notin = child_not_later [OF Cons.prems(2)]
  from Cons.prems(3) obtain n where n: "node_at x rt = Some n"
    and r: "data_r (data n) \<noteq> None"
    and kids: "\<forall>i<length (children n).
                 x @ [i] \<in> set (x # ps) \<or> data_R (data (children n ! i)) \<noteq> None"
    by auto
  have "data_R (data c) \<noteq> None" if "c \<in> set (children n)" for c
    using that kids notin by (auto simp: in_set_conv_nth)
  with r obtain v where v: "node_return g n = Inr v"
    using node_return_defined [of n g] by blast
  define rt1 where "rt1 = set_data (\<lambda>d. d\<lparr>data_R := Some v\<rparr>) x rt"
  have vis: "visit g rt x = Inr rt1" by (simp add: visit_def n v rt1_def)
  have pre1: "\<forall>p\<in>set ps. \<exists>m. node_at p rt1 = Some m \<and> data_r (data m) \<noteq> None \<and>
           (\<forall>i<length (children m). p @ [i] \<in> set ps \<or> data_R (data (children m ! i)) \<noteq> None)"
  proof
    fix p assume p: "p \<in> set ps"
    then have px: "p \<noteq> x" using xps by auto
    from Cons.prems(3) p obtain m where m: "node_at p rt = Some m"
      and mr: "data_r (data m) \<noteq> None"
      and mk: "\<forall>i<length (children m).
                 p @ [i] \<in> set (x # ps) \<or> data_R (data (children m ! i)) \<noteq> None"
      by auto
    from m obtain m1 where m1: "node_at p rt1 = Some m1"
      using node_at_set_data_None [of p "\<lambda>d. d\<lparr>data_R := Some v\<rparr>" x rt]
      unfolding rt1_def by (cases "node_at p (set_data (\<lambda>d. d\<lparr>data_R := Some v\<rparr>) x rt)") auto
    have d1: "data m1 = data m"
      using data_at_set_data [of p "\<lambda>d. d\<lparr>data_R := Some v\<rparr>" x rt] px m m1
      by (simp add: data_at_def rt1_def)
    have a1: "length (children m1) = length (children m)"
      using arity_at_set_data [of p "\<lambda>d. d\<lparr>data_R := Some v\<rparr>" x rt] m m1
      by (simp add: rt1_def)
    have "p @ [i] \<in> set ps \<or> data_R (data (children m1 ! i)) \<noteq> None"
      if i: "i < length (children m1)" for i
    proof -
      from i a1 have i': "i < length (children m)" by simp
      have c1: "data_at (p @ [i]) rt1 = Some (data (children m1 ! i))"
        by (rule data_at_child [OF m1 i])
      have c: "data_at (p @ [i]) rt = Some (data (children m ! i))"
        by (rule data_at_child [OF m i'])
      have upd: "data_at (p @ [i]) rt1 =
                   (if p @ [i] = x
                    then map_option (\<lambda>d. d\<lparr>data_R := Some v\<rparr>) (data_at (p @ [i]) rt)
                    else data_at (p @ [i]) rt)"
        unfolding rt1_def by (rule data_at_set_data)
      show ?thesis
      proof (cases "p @ [i] = x")
        case True
        with upd c c1 have "data (children m1 ! i) = (data (children m ! i))\<lparr>data_R := Some v\<rparr>"
          by simp
        then show ?thesis by simp
      next
        case False
        with upd c c1 have eq: "data (children m1 ! i) = data (children m ! i)" by simp
        from mk i' have "p @ [i] \<in> set (x # ps) \<or> data_R (data (children m ! i)) \<noteq> None"
          by simp
        with False eq show ?thesis by auto
      qed
    qed
    with m1 d1 mr show "\<exists>m. node_at p rt1 = Some m \<and> data_r (data m) \<noteq> None \<and>
           (\<forall>i<length (children m). p @ [i] \<in> set ps \<or> data_R (data (children m ! i)) \<noteq> None)"
      by auto
  qed
  from Cons.IH [OF dist sorted pre1] obtain rt' where run: "backup_loop g ps rt1 = (None, rt')"
    and res: "\<forall>p\<in>set ps. \<exists>n' v. node_at p rt' = Some n' \<and> node_return g n' = Inr v
                              \<and> data_R (data n') = Some v"
    by blast
  have whole: "backup_loop g (x # ps) rt = (None, rt')" using vis run by simp
  have atx: "\<exists>n' v. node_at x rt' = Some n' \<and> node_return g n' = Inr v \<and> data_R (data n') = Some v"
  proof -
    from n obtain n' where n': "node_at x rt' = Some n'"
      using backup_loop_valid [OF whole, of x] by (cases "node_at x rt'") auto
    have "data_at x rt' = data_at x rt1" by (rule backup_loop_untouched [OF run xps])
    moreover have "data_at x rt1 = Some ((data n)\<lparr>data_R := Some v\<rparr>)"
      using data_at_set_data [of x "\<lambda>d. d\<lparr>data_R := Some v\<rparr>" x rt] n
      by (simp add: rt1_def data_at_def)
    ultimately have "data_at x rt' = Some ((data n)\<lparr>data_R := Some v\<rparr>)" by simp
    then have dn': "data n' = (data n)\<lparr>data_R := Some v\<rparr>"
      using n' by (simp add: data_at_def)
    have len: "length (children n') = length (children n)"
      using backup_loop_arity [OF whole, of x] n n' by simp
    have kidsR: "map_option data_R (data_at (x @ [i]) rt')
                   = map_option data_R (data_at (x @ [i]) rt)" for i
    proof -
      from notin [of i] have "x @ [i] \<notin> set ps" by simp
      then have "data_at (x @ [i]) rt' = data_at (x @ [i]) rt1"
        by (rule backup_loop_untouched [OF run])
      also have "\<dots> = data_at (x @ [i]) rt"
        unfolding rt1_def by (simp add: data_at_set_data)
      finally show ?thesis by simp
    qed
    have "node_return g n' = node_return g n"
      by (rule ret_at_cong [OF n n' len _ kidsR]) (simp add: dn')
    with n' v dn' show ?thesis by simp
  qed
  from whole atx res show ?case by auto
qed

lemma backup_loop_idem:
  assumes "distinct ps" and "sorted_wrt (\<lambda>p q. length q \<le> length p) ps"
    and "backup_loop g ps rt = (e, rt')"
  shows "backup_loop g ps rt' = (e, rt')"
  using assms
proof (induction ps arbitrary: rt)
  case Nil
  then show ?case by simp
next
  case (Cons x ps)
  from Cons.prems(1) have xps: "x \<notin> set ps" and dist: "distinct ps" by simp_all
  from Cons.prems(2) have sorted: "sorted_wrt (\<lambda>p q. length q \<le> length p) ps" by simp
  note notin = child_not_later [OF Cons.prems(2)]
  show ?case
  proof (cases "visit g rt x")
    case (Inl err)
    with Cons.prems(3) show ?thesis by auto
  next
    case (Inr rt1)
    from visit_Inr [OF Inr] obtain n v where n: "node_at x rt = Some n"
      and v: "node_return g n = Inr v"
      and rt1: "rt1 = set_data (\<lambda>d. d\<lparr>data_R := Some v\<rparr>) x rt"
      by blast
    from Cons.prems(3) Inr have run: "backup_loop g ps rt1 = (e, rt')" by simp
    have again: "backup_loop g ps rt' = (e, rt')" by (rule Cons.IH [OF dist sorted run])
    from n obtain n' where n': "node_at x rt' = Some n'"
      using backup_loop_valid [OF Cons.prems(3), of x] by (cases "node_at x rt'") auto
    have "data_at x rt' = data_at x rt1" by (rule backup_loop_untouched [OF run xps])
    moreover have "data_at x rt1 = Some ((data n)\<lparr>data_R := Some v\<rparr>)"
      using data_at_set_data [of x "\<lambda>d. d\<lparr>data_R := Some v\<rparr>" x rt] n
      by (simp add: rt1 data_at_def)
    ultimately have "data_at x rt' = Some ((data n)\<lparr>data_R := Some v\<rparr>)" by simp
    then have dn': "data n' = (data n)\<lparr>data_R := Some v\<rparr>"
      using n' by (simp add: data_at_def)
    have len: "length (children n') = length (children n)"
      using backup_loop_arity [OF Cons.prems(3), of x] n n' by simp
    have kidsR: "map_option data_R (data_at (x @ [i]) rt')
                   = map_option data_R (data_at (x @ [i]) rt)" for i
    proof -
      from notin [of i] have "x @ [i] \<notin> set ps" by simp
      then have "data_at (x @ [i]) rt' = data_at (x @ [i]) rt1"
        by (rule backup_loop_untouched [OF run])
      also have "\<dots> = data_at (x @ [i]) rt"
        unfolding rt1 by (simp add: data_at_set_data)
      finally show ?thesis by simp
    qed
    have "node_return g n' = node_return g n"
      by (rule ret_at_cong [OF n n' len _ kidsR]) (simp add: dn')
    with v have v': "node_return g n' = Inr v" by simp
    have "set_data (\<lambda>d. d\<lparr>data_R := Some v\<rparr>) x rt' = rt'"
      by (rule set_data_id [OF n']) (simp add: dn')
    with n' v' have "visit g rt' x = Inr rt'" by (simp add: visit_def)
    with again show ?thesis by simp
  qed
qed

section \<open>Properties of the return backup\<close>

lemma iter_after:
  assumes "backup_loop g ps (tree_root t) = (e, rt')"
  shows "iter_breadth_first_reverse (t\<lparr>tree_root := rt'\<rparr>) False True
           = iter_breadth_first_reverse t False True"
  by (simp add: iter_eq backup_loop_level [OF assms] backup_loop_max_depth [OF assms])

lemma compute_return_backup:
  assumes "rewards_defined t"
  shows "\<exists>t'. compute_return t g = (None, t') \<and>
     (\<forall>p n. p \<noteq> [] \<and> node_at p (tree_root t) = Some n \<longrightarrow>
        (\<exists>n' v. node_at p (tree_root t') = Some n' \<and> node_return g n' = Inr v \<and>
                data_R (data n') = Some v))"
proof -
  define ps where "ps = iter_breadth_first_reverse t False True"
  have set_ps: "set ps = {p. p \<noteq> [] \<and> node_at p (tree_root t) \<noteq> None}"
    unfolding ps_def by (rule iter_set)
  have pre: "\<forall>p\<in>set ps. \<exists>n. node_at p (tree_root t) = Some n \<and> data_r (data n) \<noteq> None \<and>
           (\<forall>i<length (children n). p @ [i] \<in> set ps \<or> data_R (data (children n ! i)) \<noteq> None)"
  proof
    fix p assume p: "p \<in> set ps"
    with assms obtain n where n: "node_at p (tree_root t) = Some n" and r: "data_r (data n) \<noteq> None"
      unfolding rewards_defined_def ps_def list_all_iff by (auto split: option.splits)
    have "p @ [i] \<in> set ps" if "i < length (children n)" for i
      using that n by (simp add: set_ps node_at_snoc)
    with n r show "\<exists>n. node_at p (tree_root t) = Some n \<and> data_r (data n) \<noteq> None \<and>
           (\<forall>i<length (children n). p @ [i] \<in> set ps \<or> data_R (data (children n ! i)) \<noteq> None)"
      by auto
  qed
  from backup_loop_ok [of ps "tree_root t" g, OF _ _ pre]
  obtain rt' where run: "backup_loop g ps (tree_root t) = (None, rt')"
    and res: "\<forall>p\<in>set ps. \<exists>n' v. node_at p rt' = Some n' \<and> node_return g n' = Inr v
                              \<and> data_R (data n') = Some v"
    unfolding ps_def using iter_distinct iter_sorted by blast
  have cr: "compute_return t g = (None, t\<lparr>tree_root := rt'\<rparr>)"
    using run by (simp add: compute_return_def ps_def)
  from res have "\<forall>p n. p \<noteq> [] \<and> node_at p (tree_root t) = Some n \<longrightarrow>
        (\<exists>n' v. node_at p rt' = Some n' \<and> node_return g n' = Inr v \<and> data_R (data n') = Some v)"
    by (simp add: set_ps)
  with cr show ?thesis by simp
qed

text \<open>
  C3, as the code has it: the traversal leaves the root out, so on a tree that is only a
  root the loop body never runs and the tree, the root's stored return included, is
  returned as it was.
\<close>

theorem compute_return_single_node:
  assumes "children (tree_root t) = []"
  shows "compute_return t g = (None, t)"
proof -
  have "max_depth (tree_root t) = 0" using assms by (subst max_depth_eq) simp
  then show ?thesis by (simp add: compute_return_def iter_eq)
qed

theorem compute_return_single_node_witness:
  "children (tree_root single_node_tree) = [] \<and>
   compute_return single_node_tree (99 / 100) = (None, single_node_tree)"
proof -
  have h: "children (tree_root single_node_tree) = []" by (simp add: single_node_tree_def)
  from h compute_return_single_node [OF h, of "99 / 100"] show ?thesis by simp
qed

text \<open>
  C3 as stated fails: a root with reward 1 and no stored return still has no stored return
  after the call.
\<close>

theorem compute_return_root_counterexample:
  "data_r (data (tree_root (snd (compute_return single_node_tree 1)))) = Some 1 \<and>
   data_R (data (tree_root (snd (compute_return single_node_tree 1)))) = None"
  by (simp add: compute_return_def iter_breadth_first_reverse_def single_node_tree_def
      root_data_def)

lemma compute_return_twice:
  "compute_return (snd (compute_return t g)) g = compute_return t g"
proof -
  define ps where "ps = iter_breadth_first_reverse t False True"
  obtain e rt' where run: "backup_loop g ps (tree_root t) = (e, rt')"
    by (cases "backup_loop g ps (tree_root t)") auto
  have cr: "compute_return t g = (e, t\<lparr>tree_root := rt'\<rparr>)"
    using run by (simp add: compute_return_def ps_def)
  have ps': "iter_breadth_first_reverse (t\<lparr>tree_root := rt'\<rparr>) False True = ps"
    unfolding ps_def using run unfolding ps_def by (rule iter_after)
  have "backup_loop g ps rt' = (e, rt')"
    using run unfolding ps_def by (intro backup_loop_idem iter_distinct iter_sorted)
  then have "compute_return (t\<lparr>tree_root := rt'\<rparr>) g = (e, t\<lparr>tree_root := rt'\<rparr>)"
    by (simp add: compute_return_def ps')
  with cr show ?thesis by simp
qed

text \<open>
  C7: running \<open>compute_return\<close> again on the tree it has just returned gives the same tree
  (and the same exception, if the first run raised one).
\<close>

theorem compute_return_idempotent:
  "compute_return (snd (compute_return t g)) g = compute_return t g"
  by (rule compute_return_twice)

theorem compute_return_idempotent_witness:
  "compute_return (snd (compute_return example_tree (99 / 100))) (99 / 100)
     = compute_return example_tree (99 / 100)"
  using compute_return_idempotent [of example_tree "99 / 100"] .

lemma compute_return_only_R:
  "branching_factor (snd (compute_return t g)) = branching_factor t \<and>
   data (tree_root (snd (compute_return t g))) = data (tree_root t) \<and>
   (\<forall>p. (node_at p (tree_root (snd (compute_return t g))) = None)
          = (node_at p (tree_root t) = None)) \<and>
   (\<forall>p n. node_at p (tree_root t) = Some n \<longrightarrow>
      (\<exists>n'. node_at p (tree_root (snd (compute_return t g))) = Some n' \<and>
         length (children n') = length (children n) \<and>
         (data n')\<lparr>data_R := data_R (data n)\<rparr> = data n))"
proof -
  define ps where "ps = iter_breadth_first_reverse t False True"
  obtain e rt' where run: "backup_loop g ps (tree_root t) = (e, rt')"
    by (cases "backup_loop g ps (tree_root t)") auto
  have cr: "compute_return t g = (e, t\<lparr>tree_root := rt'\<rparr>)"
    using run by (simp add: compute_return_def ps_def)
  have "[] \<notin> set ps" unfolding ps_def by (simp add: iter_set)
  from backup_loop_untouched [OF run this] have root: "data rt' = data (tree_root t)"
    by (simp add: data_at_def)
  have valid: "(node_at p rt' = None) = (node_at p (tree_root t) = None)" for p
    by (rule backup_loop_valid [OF run])
  have "\<exists>n'. node_at p rt' = Some n' \<and> length (children n') = length (children n) \<and>
         (data n')\<lparr>data_R := data_R (data n)\<rparr> = data n"
    if n: "node_at p (tree_root t) = Some n" for p n
  proof -
    from n valid [of p] obtain n' where n': "node_at p rt' = Some n'" by auto
    have "length (children n') = length (children n)"
      using backup_loop_arity [OF run, of p] n n' by simp
    moreover have "(data n')\<lparr>data_R := data_R (data n)\<rparr> = data n"
      using backup_loop_only_R [OF run, of "data_R (data n)" p] n n' by (simp add: data_at_def)
    ultimately show ?thesis using n' by simp
  qed
  with cr root valid show ?thesis by simp
qed

lemma only_R_fields:
  assumes "(d' :: node_data)\<lparr>data_R := x\<rparr> = d"
  shows "data_r d' = data_r d" and "data_a d' = data_a d"
    and "data_done d' = data_done d" and "data_obs d' = data_obs d"
    and "data_features d' = data_features d"
  using assms by (cases d', cases d, simp)+

text \<open>
  C1: after \<open>compute_return\<close>, every node but the root stores its own reward if it is a leaf,
  and its own reward plus the discount factor times the largest stored return of its
  children otherwise. The call raises nothing, and nodes and rewards are those of the input.
\<close>

theorem compute_return_bellman:
  assumes "rewards_defined t"
  shows "\<exists>t'. compute_return t g = (None, t') \<and>
     (\<forall>p n. p \<noteq> [] \<and> node_at p (tree_root t) = Some n \<longrightarrow>
        (\<exists>n'. node_at p (tree_root t') = Some n' \<and>
           length (children n') = length (children n) \<and>
           data_r (data n') = data_r (data n) \<and>
           (is_leaf n' \<longrightarrow> data_R (data n') = data_r (data n')) \<and>
           (\<not> is_leaf n' \<longrightarrow>
              (\<forall>c\<in>set (children n'). data_R (data c) \<noteq> None) \<and>
              (\<exists>rv. data_r (data n') = Some rv \<and>
                 data_R (data n') =
                   Some (rv + g * Max ((\<lambda>c. the (data_R (data c))) ` set (children n')))))))"
proof -
  from compute_return_backup [OF assms, of g] obtain t'
    where cr: "compute_return t g = (None, t')"
      and raw: "\<forall>p n. p \<noteq> [] \<and> node_at p (tree_root t) = Some n \<longrightarrow>
        (\<exists>n' v. node_at p (tree_root t') = Some n' \<and> node_return g n' = Inr v \<and>
                data_R (data n') = Some v)"
    by blast
  from cr have t': "snd (compute_return t g) = t'" by simp
  from compute_return_only_R [of t g, unfolded t']
  have fr: "\<forall>p n. node_at p (tree_root t) = Some n \<longrightarrow>
      (\<exists>n'. node_at p (tree_root t') = Some n' \<and>
         length (children n') = length (children n) \<and>
         (data n')\<lparr>data_R := data_R (data n)\<rparr> = data n)" by blast
  have "\<exists>n'. node_at p (tree_root t') = Some n' \<and>
           length (children n') = length (children n) \<and>
           data_r (data n') = data_r (data n) \<and>
           (is_leaf n' \<longrightarrow> data_R (data n') = data_r (data n')) \<and>
           (\<not> is_leaf n' \<longrightarrow>
              (\<forall>c\<in>set (children n'). data_R (data c) \<noteq> None) \<and>
              (\<exists>rv. data_r (data n') = Some rv \<and>
                 data_R (data n') =
                   Some (rv + g * Max ((\<lambda>c. the (data_R (data c))) ` set (children n')))))"
    if p: "p \<noteq> []" and n: "node_at p (tree_root t) = Some n" for p n
  proof -
    from raw p n obtain n' v where n': "node_at p (tree_root t') = Some n'"
      and v: "node_return g n' = Inr v" and R: "data_R (data n') = Some v" by blast
    from fr [rule_format, OF n] n'
    have len: "length (children n') = length (children n)"
      and d: "(data n')\<lparr>data_R := data_R (data n)\<rparr> = data n" by simp_all
    from only_R_fields(1) [OF d] n' len R node_return_bellman [OF v] show ?thesis by auto
  qed
  with cr show ?thesis by blast
qed

theorem compute_return_bellman_witness:
  "rewards_defined example_tree \<and>
   (\<exists>t' n'. compute_return example_tree (99 / 100) = (None, t') \<and>
      node_at [0] (tree_root t') = Some n' \<and> data_R (data n') = Some (99 / 100))"
proof -
  have h: "rewards_defined example_tree"
    by (simp add: rewards_defined_def example_tree_def iter_breadth_first_reverse_def
        new_data_def root_data_def)
  from compute_return_bellman [OF h, of "99 / 100"] obtain t'
    where cr: "compute_return example_tree (99 / 100) = (None, t')"
      and bell: "\<And>p n. p \<noteq> [] \<Longrightarrow> node_at p (tree_root example_tree) = Some n \<Longrightarrow>
        (\<exists>n'. node_at p (tree_root t') = Some n' \<and>
           length (children n') = length (children n) \<and>
           data_r (data n') = data_r (data n) \<and>
           (is_leaf n' \<longrightarrow> data_R (data n') = data_r (data n')) \<and>
           (\<not> is_leaf n' \<longrightarrow>
              (\<forall>c\<in>set (children n'). data_R (data c) \<noteq> None) \<and>
              (\<exists>rv. data_r (data n') = Some rv \<and>
                 data_R (data n') =
                   Some (rv + 99 / 100 * Max ((\<lambda>c. the (data_R (data c))) ` set (children n'))))))"
    by blast
  have at0: "node_at [0] (tree_root example_tree) = Some (Node (new_data 0 0) [Node (new_data 0 1) []])"
    and at00: "node_at [0, 0] (tree_root example_tree) = Some (Node (new_data 0 1) [])"
    by (simp_all add: example_tree_def)
  from bell [OF _ at0] obtain n' where n': "node_at [0] (tree_root t') = Some n'"
    and len: "length (children n') = 1" and r: "data_r (data n') = Some 0"
    and inner: "\<not> is_leaf n' \<longrightarrow> (\<exists>rv. data_r (data n') = Some rv \<and>
                 data_R (data n') =
                   Some (rv + 99 / 100 * Max ((\<lambda>c. the (data_R (data c))) ` set (children n'))))"
    by (auto simp: new_data_def)
  from bell [OF _ at00] obtain c' where c': "node_at [0, 0] (tree_root t') = Some c'"
    and cleaf: "length (children c') = 0" and cr': "data_r (data c') = Some 1"
    and cR: "is_leaf c' \<longrightarrow> data_R (data c') = data_r (data c')"
    by (auto simp: new_data_def)
  from cleaf cR cr' have R1: "data_R (data c') = Some 1" by (simp add: is_leaf_def)
  from len obtain c where kids: "children n' = [c]"
    by (cases "children n'") auto
  from n' c' kids have "c = c'" by (auto split: if_splits)
  with kids R1 inner r have "data_R (data n') = Some (99 / 100)"
    by (simp add: is_leaf_def)
  with h cr n' show ?thesis by blast
qed

text \<open>
  C8: \<open>compute_return\<close> leaves the root's dictionary and the branching factor as they were,
  adds and removes no node, and changes at most the entry \<open>"R"\<close> of any node.
\<close>

theorem compute_return_frame:
  "branching_factor (snd (compute_return t g)) = branching_factor t \<and>
   data (tree_root (snd (compute_return t g))) = data (tree_root t) \<and>
   (\<forall>p. (node_at p (tree_root (snd (compute_return t g))) = None)
          = (node_at p (tree_root t) = None)) \<and>
   (\<forall>p n. node_at p (tree_root t) = Some n \<longrightarrow>
      (\<exists>n'. node_at p (tree_root (snd (compute_return t g))) = Some n' \<and>
         length (children n') = length (children n) \<and>
         (data n')\<lparr>data_R := data_R (data n)\<rparr> = data n))"
  by (rule compute_return_only_R)

theorem compute_return_frame_witness:
  "node_at [0] (tree_root example_tree) = Some (Node (new_data 0 0) [Node (new_data 0 1) []]) \<and>
   branching_factor (snd (compute_return example_tree 1)) = branching_factor example_tree \<and>
   data (tree_root (snd (compute_return example_tree 1))) = data (tree_root example_tree) \<and>
   (\<exists>n'. node_at [0] (tree_root (snd (compute_return example_tree 1))) = Some n' \<and>
      length (children n') = length (children (Node (new_data 0 0) [Node (new_data 0 1) []])) \<and>
      (data n')\<lparr>data_R := data_R (data (Node (new_data 0 0) [Node (new_data 0 1) []]))\<rparr>
        = data (Node (new_data 0 0) [Node (new_data 0 1) []]))"
proof -
  have h: "node_at [0] (tree_root example_tree) = Some (Node (new_data 0 0) [Node (new_data 0 1) []])"
    by (simp add: example_tree_def)
  from h compute_return_frame [of example_tree 1] show ?thesis by blast
qed

section \<open>Properties of the policy extraction\<close>

lemma floor_log2:
  assumes "0 < x" "2 powi k \<le> x" "x < 2 powi (k + 1)"
  shows "\<lfloor>log 2 x\<rfloor> = k"
proof (rule floor_unique)
  have "2 powr (of_int k) = (2::real) powi k"
    by (simp add: powr_real_of_int power_int_def power_one_over inverse_eq_divide)
  with assms show "of_int k \<le> log 2 x" by (simp add: le_log_iff)
  have "2 powr (of_int k + 1) = (2::real) powi (k + 1)"
    using powr_real_of_int [of 2 "k + 1"]
    by (simp add: power_int_def power_one_over inverse_eq_divide)
  with assms show "log 2 x < of_int k + 1" by (simp add: log_less_iff)
qed

lemma float32_0: "float32 0 = Fin 0"
  by (simp add: float32_def)

lemma float32_1: "float32 1 = Fin 1"
  by (simp add: float32_def round_half_even_def power_int_def Let_def power_one_over)

lemma float32_2: "float32 2 = Fin 2"
  by (simp add: float32_def round_half_even_def power_int_def Let_def power_one_over)

lemma float32_16777217: "float32 16777217 = Fin 16777216"
proof -
  have "\<lfloor>log 2 \<bar>16777217::real\<bar>\<rfloor> = 24"
    by (rule floor_log2) (simp_all add: power_int_def)
  then show ?thesis
    by (simp add: float32_def round_half_even_def power_int_def Let_def power_one_over)
qed

lemma two_step_iter:
  "iter_breadth_first_reverse (two_step_tree d0 x0 y0 x1 y1) False True = [[0,0],[1,0],[0],[1]]"
  by (simp add: iter_breadth_first_reverse_def two_step_tree_def)

lemma two_step_return:
  "compute_return (two_step_tree d0 x0 y0 x1 y1) 1 =
     (None, \<lparr>tree_root = Node d0
        [Node (x0\<lparr>data_r := Some 0, data_a := Some 0, data_R := Some 1\<rparr>)
           [Node (y0\<lparr>data_r := Some 1, data_R := Some 1\<rparr>) []],
         Node (x1\<lparr>data_r := Some 0, data_a := Some 1, data_R := Some 0\<rparr>)
           [Node (y1\<lparr>data_r := Some 0, data_R := Some 0\<rparr>) []]],
      branching_factor = 2\<rparr>)"
  unfolding compute_return_def two_step_iter
  by (simp add: two_step_tree_def visit_def node_return_def is_leaf_def)

text \<open>
  C6: on the worked example with discount factor 1 the child of the root under action 0
  gets return 1, and the policy at temperature 0 is probability 1 on action 0 and 0 on
  action 1.
\<close>

theorem two_step_policy:
  "(\<exists>t' n'. compute_return (two_step_tree d0 x0 y0 x1 y1) 1 = (None, t') \<and>
       node_at [0] (tree_root t') = Some n' \<and> data_R (data n') = Some 1)
   \<and> fst (softmax_Q_tree_policy (two_step_tree d0 x0 y0 x1 y1) 2 1 0) = Inr [1, 0]"
  by (simp add: two_step_return softmax_Q_tree_policy_def softmax_def hard_max_def
      numeral_2_eq_2 float32_0 float32_1)

lemma fill_Q_ok:
  assumes "\<forall>c\<in>set cs. data_R (data c) \<noteq> None \<and>
             (\<exists>act. data_a (data c) = Some act \<and> 0 \<le> act \<and> act < int (length Q))"
  shows "\<exists>Q'. fill_Q cs Q = Inr Q' \<and> length Q' = length Q \<and>
           (\<forall>k<length Q. (\<forall>c\<in>set cs. data_a (data c) \<noteq> Some (int k)) \<longrightarrow> Q' ! k = Q ! k) \<and>
           (\<forall>i<length cs. \<forall>k. data_a (data (cs ! i)) = Some (int k) \<and>
                (\<forall>j. i < j \<and> j < length cs \<longrightarrow> data_a (data (cs ! j)) \<noteq> Some (int k))
              \<longrightarrow> Q' ! k = float32 (the (data_R (data (cs ! i)))))"
  using assms
proof (induction cs arbitrary: Q)
  case Nil
  show ?case by simp
next
  case (Cons c cs)
  from Cons.prems obtain v act where v: "data_R (data c) = Some v"
    and act: "data_a (data c) = Some act" and ge: "0 \<le> act" and lt: "act < int (length Q)"
    by auto
  define k0 where "k0 = nat act"
  from ge lt have k0: "act = int k0" "k0 < length Q" by (simp_all add: k0_def)
  define Q1 where "Q1 = Q[k0 := float32 v]"
  have len1: "length Q1 = length Q" by (simp add: Q1_def)
  have pre: "\<forall>c\<in>set cs. data_R (data c) \<noteq> None \<and>
               (\<exists>act. data_a (data c) = Some act \<and> 0 \<le> act \<and> act < int (length Q1))"
    using Cons.prems by (simp add: len1)
  from Cons.IH [OF pre] obtain Q' where run: "fill_Q cs Q1 = Inr Q'"
    and len: "length Q' = length Q1"
    and keep: "\<forall>b<length Q1. (\<forall>c\<in>set cs. data_a (data c) \<noteq> Some (int b)) \<longrightarrow> Q' ! b = Q1 ! b"
    and last: "\<forall>i<length cs. \<forall>b. data_a (data (cs ! i)) = Some (int b) \<and>
                (\<forall>j. i < j \<and> j < length cs \<longrightarrow> data_a (data (cs ! j)) \<noteq> Some (int b))
              \<longrightarrow> Q' ! b = float32 (the (data_R (data (cs ! i))))"
    by blast
  have whole: "fill_Q (c # cs) Q = Inr Q'"
    using v act ge lt run by (simp add: Q1_def k0_def Let_def)
  have keep': "Q' ! b = Q ! b"
    if "b < length Q" "\<forall>c'\<in>set (c # cs). data_a (data c') \<noteq> Some (int b)" for b
  proof -
    from that act k0 have "b \<noteq> k0" by auto
    moreover from that keep len1 have "Q' ! b = Q1 ! b" by simp
    ultimately show ?thesis by (simp add: Q1_def)
  qed
  have last': "Q' ! b = float32 (the (data_R (data ((c # cs) ! i))))"
    if i: "i < length (c # cs)" and b: "data_a (data ((c # cs) ! i)) = Some (int b)"
      and later: "\<forall>j. i < j \<and> j < length (c # cs) \<longrightarrow> data_a (data ((c # cs) ! j)) \<noteq> Some (int b)"
    for i b
  proof (cases i)
    case 0
    with b act k0 have ba: "b = k0" by simp
    have "\<forall>c'\<in>set cs. data_a (data c') \<noteq> Some (int b)"
    proof
      fix c' assume "c' \<in> set cs"
      then obtain j where j: "j < length cs" "cs ! j = c'" by (auto simp: in_set_conv_nth)
      then show "data_a (data c') \<noteq> Some (int b)"
        using later [rule_format, of "Suc j"] 0 by simp
    qed
    with keep k0 len1 ba have "Q' ! b = Q1 ! b" by simp
    with 0 ba k0 v show ?thesis by (simp add: Q1_def)
  next
    case (Suc k)
    with i have k: "k < length cs" by simp
    from b Suc have bk: "data_a (data (cs ! k)) = Some (int b)" by simp
    have "\<forall>j. k < j \<and> j < length cs \<longrightarrow> data_a (data (cs ! j)) \<noteq> Some (int b)"
    proof (intro allI impI)
      fix j assume "k < j \<and> j < length cs"
      then show "data_a (data (cs ! j)) \<noteq> Some (int b)"
        using later [rule_format, of "Suc j"] Suc by simp
    qed
    with last k bk have "Q' ! b = float32 (the (data_R (data (cs ! k))))" by blast
    with Suc show ?thesis by simp
  qed
  show ?case
  proof (intro exI conjI)
    show "fill_Q (c # cs) Q = Inr Q'" by fact
    show "length Q' = length Q" using len len1 by simp
    show "\<forall>k<length Q. (\<forall>c\<in>set (c # cs). data_a (data c) \<noteq> Some (int k)) \<longrightarrow> Q' ! k = Q ! k"
      using keep' by blast
    show "\<forall>i<length (c # cs). \<forall>k. data_a (data ((c # cs) ! i)) = Some (int k) \<and>
                (\<forall>j. i < j \<and> j < length (c # cs) \<longrightarrow> data_a (data ((c # cs) ! j)) \<noteq> Some (int k))
              \<longrightarrow> Q' ! k = float32 (the (data_R (data ((c # cs) ! i))))"
      using last' by blast
  qed
qed

lemma fold_logit_max_mem: "fold logit_max q m \<in> insert m (set q)"
proof (induction q arbitrary: m)
  case Nil
  show ?case by simp
next
  case (Cons x q)
  have "logit_max x m = x \<or> logit_max x m = m"
    by (cases x; cases m) (auto simp: max_def)
  with Cons [of "logit_max x m"] show ?case by auto
qed

lemma fold_logit_max_NegInf:
  "fold logit_max q m = NegInf \<longleftrightarrow> m = NegInf \<and> (\<forall>x\<in>set q. x = NegInf)"
proof (induction q arbitrary: m)
  case Nil
  show ?case by simp
next
  case (Cons x q)
  have "logit_max x m = NegInf \<longleftrightarrow> x = NegInf \<and> m = NegInf"
    by (cases x; cases m) auto
  with Cons [of "logit_max x m"] show ?case by auto
qed

lemma sum_list_divide: "sum_list (map (\<lambda>x. x / z) w) = sum_list w / (z::real)"
  by (simp add: divide_inverse sum_list_mult_const)

lemma sum_list_positive:
  "\<forall>x\<in>set w. 0 \<le> x \<Longrightarrow> \<exists>x\<in>set w. 0 < x \<Longrightarrow> 0 < sum_list (w::real list)"
proof (induction w)
  case Nil
  then show ?case by simp
next
  case (Cons a w)
  have "0 \<le> sum_list w" using Cons.prems(1) by (intro sum_list_nonneg) simp
  moreover have "0 \<le> a" using Cons.prems(1) by simp
  ultimately show ?case using Cons by (cases "0 < a") auto
qed

lemma softmax_length: "length (softmax q temp) = length q"
  by (simp add: softmax_def hard_max_def Let_def)

lemma weight_nonneg: "0 \<le> weight temp x"
  by (cases x) auto

lemma softmax_nonneg:
  assumes "i < length q"
  shows "0 \<le> softmax q temp ! i"
proof -
  have h1: "0 \<le> sum_list (map (weight temp) q)"
    by (rule sum_list_nonneg) (auto simp: weight_nonneg)
  have h2: "0 \<le> sum_list (map (\<lambda>x. if x = m then 1 else 0::real) q)" for m
    by (rule sum_list_nonneg) auto
  from assms h1 h2 show ?thesis
    by (simp add: softmax_def hard_max_def Let_def weight_nonneg)
qed

lemma softmax_NegInf:
  assumes "i < length q" "q ! i = NegInf" "\<exists>x\<in>set q. x \<noteq> NegInf"
  shows "softmax q temp ! i = 0"
proof (cases "temp = 0")
  case True
  have "fold logit_max q NegInf \<noteq> NegInf" using assms(3) by (simp add: fold_logit_max_NegInf)
  with assms(1,2) True show ?thesis by (simp add: softmax_def hard_max_def Let_def)
next
  case False
  with assms(1,2) show ?thesis by (simp add: softmax_def Let_def)
qed

lemma softmax_sum:
  assumes "Fin v \<in> set q"
  shows "sum_list (softmax q temp) = 1"
proof (cases "temp = 0")
  case True
  define m where "m = fold logit_max q NegInf"
  define hits :: "real list" where "hits = map (\<lambda>x. if x = m then 1 else 0) q"
  have "m \<noteq> NegInf" unfolding m_def using assms by (auto simp: fold_logit_max_NegInf)
  then have "m \<in> set q" using fold_logit_max_mem [of q NegInf] by (auto simp: m_def)
  then have "\<exists>x\<in>set hits. 0 < x" by (auto simp: hits_def)
  moreover have "\<forall>x\<in>set hits. 0 \<le> x" by (auto simp: hits_def)
  ultimately have "0 < sum_list hits" by (rule sum_list_positive [rotated])
  moreover have "softmax q temp = map (\<lambda>h. h / sum_list hits) hits"
    using True by (simp add: softmax_def hard_max_def Let_def m_def hits_def)
  ultimately show ?thesis by (simp add: sum_list_divide)
next
  case False
  define w where "w = map (weight temp) q"
  from assms have "exp (v / temp) \<in> set w" by (force simp: w_def)
  then have "\<exists>x\<in>set w. 0 < x" using exp_gt_zero by blast
  moreover have "\<forall>x\<in>set w. 0 \<le> x" by (auto simp: w_def weight_nonneg)
  ultimately have "0 < sum_list w" by (rule sum_list_positive [rotated])
  moreover have "softmax q temp = map (\<lambda>x. x / sum_list w) w"
    using False by (simp add: softmax_def Let_def w_def)
  ultimately show ?thesis by (simp add: sum_list_divide)
qed

lemma root_children_after:
  assumes "compute_return t g = (e, t')"
  shows "length (children (tree_root t')) = length (children (tree_root t))"
    and "i < length (children (tree_root t)) \<Longrightarrow>
         (data (children (tree_root t') ! i))\<lparr>data_R := data_R (data (children (tree_root t) ! i))\<rparr>
           = data (children (tree_root t) ! i)"
proof -
  from assms have t': "snd (compute_return t g) = t'" by simp
  from compute_return_only_R [of t g, unfolded t']
  have fr: "\<forall>p n. node_at p (tree_root t) = Some n \<longrightarrow>
      (\<exists>n'. node_at p (tree_root t') = Some n' \<and>
         length (children n') = length (children n) \<and>
         (data n')\<lparr>data_R := data_R (data n)\<rparr> = data n)" by blast
  from fr [rule_format, of "[]" "tree_root t"]
  have "\<exists>n'. node_at [] (tree_root t') = Some n' \<and>
       length (children n') = length (children (tree_root t))" by auto
  then show len: "length (children (tree_root t')) = length (children (tree_root t))" by simp
  assume i: "i < length (children (tree_root t))"
  then have "node_at [i] (tree_root t) = Some (children (tree_root t) ! i)" by simp
  with fr obtain n' where n': "node_at [i] (tree_root t') = Some n'"
    and d: "(data n')\<lparr>data_R := data_R (data (children (tree_root t) ! i))\<rparr>
              = data (children (tree_root t) ! i)" by blast
  from n' i len have "n' = children (tree_root t') ! i" by simp
  with d
  show "(data (children (tree_root t') ! i))\<lparr>data_R := data_R (data (children (tree_root t) ! i))\<rparr>
           = data (children (tree_root t) ! i)"
    by simp
qed

text \<open>
  What the backup leaves at the children of the root, and that the loop over them raises
  nothing when their actions index the array: used for the policy and for the planning step.
\<close>

lemma root_children_backed_up:
  assumes "rewards_defined t"
    and "\<forall>c\<in>set (children (tree_root t)).
           \<exists>act. data_a (data c) = Some act \<and> 0 \<le> act \<and> act < int n_actions"
  shows "\<exists>t' Q. compute_return t g = (None, t') \<and>
      length (children (tree_root t')) = length (children (tree_root t)) \<and>
      (\<forall>i<length (children (tree_root t)).
          (data (children (tree_root t') ! i))\<lparr>data_R := data_R (data (children (tree_root t) ! i))\<rparr>
            = data (children (tree_root t) ! i)) \<and>
      fill_Q (children (tree_root t')) (replicate n_actions NegInf) = Inr Q \<and>
      length Q = n_actions \<and>
      (\<forall>k<n_actions. (\<forall>c\<in>set (children (tree_root t')). data_a (data c) \<noteq> Some (int k))
          \<longrightarrow> Q ! k = NegInf) \<and>
      (\<forall>i<length (children (tree_root t')). \<forall>k.
          data_a (data (children (tree_root t') ! i)) = Some (int k) \<and>
          (\<forall>j. i < j \<and> j < length (children (tree_root t'))
                \<longrightarrow> data_a (data (children (tree_root t') ! j)) \<noteq> Some (int k))
          \<longrightarrow> Q ! k = float32 (the (data_R (data (children (tree_root t') ! i)))))"
proof -
  from compute_return_backup [OF assms(1), of g] obtain t'
    where cr: "compute_return t g = (None, t')"
      and bell: "\<forall>p n. p \<noteq> [] \<and> node_at p (tree_root t) = Some n \<longrightarrow>
        (\<exists>n' v. node_at p (tree_root t') = Some n' \<and> node_return g n' = Inr v \<and>
                data_R (data n') = Some v)"
    by blast
  define cs where "cs = children (tree_root t)"
  define cs' where "cs' = children (tree_root t')"
  have len: "length cs' = length cs"
    unfolding cs_def cs'_def by (rule root_children_after(1) [OF cr])
  have same: "(data (cs' ! i))\<lparr>data_R := data_R (data (cs ! i))\<rparr> = data (cs ! i)"
    if "i < length cs" for i
    using that unfolding cs_def cs'_def by (rule root_children_after(2) [OF cr])
  have act_eq: "data_a (data (cs' ! i)) = data_a (data (cs ! i))" if "i < length cs" for i
    by (rule only_R_fields(2) [OF same [OF that]])
  have R_def: "data_R (data (cs' ! i)) \<noteq> None" if i: "i < length cs" for i
  proof -
    from i have "node_at [i] (tree_root t) = Some (cs ! i)" by (simp add: cs_def)
    with bell obtain n' v where n': "node_at [i] (tree_root t') = Some n'"
      and R: "data_R (data n') = Some v" by blast
    from n' i len have "n' = cs' ! i" by (simp add: cs'_def)
    with R show ?thesis by simp
  qed
  have pre: "\<forall>c\<in>set cs'. data_R (data c) \<noteq> None \<and>
               (\<exists>act. data_a (data c) = Some act \<and> 0 \<le> act \<and>
                      act < int (length (replicate n_actions NegInf)))"
  proof
    fix c assume "c \<in> set cs'"
    then obtain i where i: "i < length cs'" and c: "c = cs' ! i" by (auto simp: in_set_conv_nth)
    from i len have i': "i < length cs" by simp
    then have "cs ! i \<in> set (children (tree_root t))" by (simp add: cs_def)
    with assms(2) obtain act where "data_a (data (cs ! i)) = Some act" "0 \<le> act"
      "act < int n_actions" by blast
    with act_eq [OF i'] R_def [OF i'] c
    show "data_R (data c) \<noteq> None \<and>
            (\<exists>act. data_a (data c) = Some act \<and> 0 \<le> act \<and>
                   act < int (length (replicate n_actions NegInf)))"
      by simp
  qed
  from fill_Q_ok [OF pre] obtain Q where fq: "fill_Q cs' (replicate n_actions NegInf) = Inr Q"
    and lenQ: "length Q = n_actions"
    and keep: "\<forall>k<n_actions. (\<forall>c\<in>set cs'. data_a (data c) \<noteq> Some (int k)) \<longrightarrow> Q ! k = NegInf"
    and last: "\<forall>i<length cs'. \<forall>k. data_a (data (cs' ! i)) = Some (int k) \<and>
                (\<forall>j. i < j \<and> j < length cs' \<longrightarrow> data_a (data (cs' ! j)) \<noteq> Some (int k))
              \<longrightarrow> Q ! k = float32 (the (data_R (data (cs' ! i))))"
    by auto
  show ?thesis
  proof (intro exI conjI)
    show "compute_return t g = (None, t')" by fact
    show "length (children (tree_root t')) = length (children (tree_root t))"
      using len by (simp add: cs_def cs'_def)
    show "\<forall>i<length (children (tree_root t)).
          (data (children (tree_root t') ! i))\<lparr>data_R := data_R (data (children (tree_root t) ! i))\<rparr>
            = data (children (tree_root t) ! i)"
      using same by (simp add: cs_def cs'_def)
    show "fill_Q (children (tree_root t')) (replicate n_actions NegInf) = Inr Q"
      using fq by (simp add: cs'_def)
    show "length Q = n_actions" by fact
    show "\<forall>k<n_actions. (\<forall>c\<in>set (children (tree_root t')). data_a (data c) \<noteq> Some (int k))
          \<longrightarrow> Q ! k = NegInf"
      using keep by (simp add: cs'_def)
    show "\<forall>i<length (children (tree_root t')). \<forall>k.
          data_a (data (children (tree_root t') ! i)) = Some (int k) \<and>
          (\<forall>j. i < j \<and> j < length (children (tree_root t'))
                \<longrightarrow> data_a (data (children (tree_root t') ! j)) \<noteq> Some (int k))
          \<longrightarrow> Q ! k = float32 (the (data_R (data (children (tree_root t') ! i))))"
      using last unfolding cs'_def .
  qed
qed

text \<open>
  C4, as the code has it: if every node but the root has a reward, the root has at least
  one child, every child of the root has an action from 0 up to but not including
  \<open>n_actions\<close>, and the backed-up return of every child of the root stays finite when rounded
  to single precision, then for every temperature the call returns a vector of \<open>n_actions\<close>
  non-negative numbers that sum to 1, with exactly 0 at every action that no child of the
  root has; the logit of such an action is still minus infinity, and the logit of an action
  that a child has is the backed-up return of the last child with that action, rounded to
  single precision.
\<close>

theorem softmax_Q_tree_policy_distribution:
  assumes "rewards_defined t" and "children (tree_root t) \<noteq> []"
    and "\<forall>c\<in>set (children (tree_root t)).
           \<exists>act. data_a (data c) = Some act \<and> 0 \<le> act \<and> act < int n_actions"
    and "\<forall>c\<in>set (children (tree_root (snd (compute_return t g)))).
           \<exists>x. float32 (the (data_R (data c))) = Fin x"
  shows "\<exists>t' Q p. compute_return t g = (None, t') \<and>
      fill_Q (children (tree_root t')) (replicate n_actions NegInf) = Inr Q \<and>
      softmax_Q_tree_policy t n_actions g temp = (Inr p, t') \<and>
      p = softmax Q temp \<and> length Q = n_actions \<and> length p = n_actions \<and>
      sum_list p = 1 \<and> (\<forall>k<n_actions. 0 \<le> p ! k) \<and>
      (\<forall>k<n_actions. (\<forall>c\<in>set (children (tree_root t)). data_a (data c) \<noteq> Some (int k))
          \<longrightarrow> Q ! k = NegInf \<and> p ! k = 0) \<and>
      (\<forall>i<length (children (tree_root t')). \<forall>k.
          data_a (data (children (tree_root t') ! i)) = Some (int k) \<and>
          (\<forall>j. i < j \<and> j < length (children (tree_root t'))
                \<longrightarrow> data_a (data (children (tree_root t') ! j)) \<noteq> Some (int k))
          \<longrightarrow> Q ! k = float32 (the (data_R (data (children (tree_root t') ! i)))))"
proof -
  from root_children_backed_up [OF assms(1,3), of g] obtain t' Q
    where cr: "compute_return t g = (None, t')"
      and len: "length (children (tree_root t')) = length (children (tree_root t))"
      and same: "\<forall>i<length (children (tree_root t)).
          (data (children (tree_root t') ! i))\<lparr>data_R := data_R (data (children (tree_root t) ! i))\<rparr>
            = data (children (tree_root t) ! i)"
      and fq: "fill_Q (children (tree_root t')) (replicate n_actions NegInf) = Inr Q"
      and lenQ: "length Q = n_actions"
      and keep: "\<forall>k<n_actions. (\<forall>c\<in>set (children (tree_root t')). data_a (data c) \<noteq> Some (int k))
          \<longrightarrow> Q ! k = NegInf"
      and last: "\<forall>i<length (children (tree_root t')). \<forall>k.
          data_a (data (children (tree_root t') ! i)) = Some (int k) \<and>
          (\<forall>j. i < j \<and> j < length (children (tree_root t'))
                \<longrightarrow> data_a (data (children (tree_root t') ! j)) \<noteq> Some (int k))
          \<longrightarrow> Q ! k = float32 (the (data_R (data (children (tree_root t') ! i))))"
    by blast
  define cs where "cs = children (tree_root t)"
  define cs' where "cs' = children (tree_root t')"
  note len = len [folded cs_def cs'_def]
  have act_eq: "data_a (data (cs' ! i)) = data_a (data (cs ! i))" if "i < length cs" for i
    using same that unfolding cs_def cs'_def by (intro only_R_fields(2)) blast
  from cr assms(4) have fin: "\<forall>c\<in>set cs'. \<exists>x. float32 (the (data_R (data c))) = Fin x"
    by (simp add: cs'_def)
  define p where "p = softmax Q temp"
  have pol: "softmax_Q_tree_policy t n_actions g temp = (Inr p, t')"
    using cr fq by (simp add: softmax_Q_tree_policy_def p_def)
  have some_fin: "\<exists>v. Fin v \<in> set Q"
  proof -
    from assms(2) len have ne: "cs' \<noteq> []" by (auto simp: cs_def)
    define i where "i = length cs' - 1"
    from ne have i: "i < length cs'" by (simp add: i_def)
    with len have i': "i < length cs" by simp
    then have "cs ! i \<in> set (children (tree_root t))" by (simp add: cs_def)
    with assms(3) obtain act where a: "data_a (data (cs ! i)) = Some act"
      and ge: "0 \<le> act" and lt: "act < int n_actions" by blast
    define k where "k = nat act"
    from ge lt have k: "act = int k" "k < n_actions" by (simp_all add: k_def)
    from a act_eq [OF i'] k have ak: "data_a (data (cs' ! i)) = Some (int k)" by simp
    have "\<forall>j. i < j \<and> j < length cs' \<longrightarrow> data_a (data (cs' ! j)) \<noteq> Some (int k)"
      unfolding i_def by auto
    with last i ak have "Q ! k = float32 (the (data_R (data (cs' ! i))))"
      unfolding cs'_def by blast
    moreover from fin i obtain x where "float32 (the (data_R (data (cs' ! i)))) = Fin x"
      by (metis nth_mem)
    ultimately have "Q ! k = Fin x" by simp
    with k lenQ show ?thesis by (metis nth_mem)
  qed
  have absent: "Q ! k = NegInf \<and> p ! k = 0"
    if lt: "k < n_actions"
      and no: "\<forall>c\<in>set (children (tree_root t)). data_a (data c) \<noteq> Some (int k)"
    for k
  proof -
    have "\<forall>c\<in>set cs'. data_a (data c) \<noteq> Some (int k)"
    proof
      fix c assume "c \<in> set cs'"
      then obtain i where i: "i < length cs'" and c: "c = cs' ! i" by (auto simp: in_set_conv_nth)
      from i len have i': "i < length cs" by simp
      then have "cs ! i \<in> set (children (tree_root t))" by (simp add: cs_def)
      with no have "data_a (data (cs ! i)) \<noteq> Some (int k)" by blast
      with act_eq [OF i'] c show "data_a (data c) \<noteq> Some (int k)" by simp
    qed
    with keep lt have q: "Q ! k = NegInf" unfolding cs'_def by blast
    from lt lenQ have "k < length Q" by simp
    moreover from some_fin have "\<exists>x\<in>set Q. x \<noteq> NegInf" by (metis logit.distinct(1))
    ultimately show ?thesis using softmax_NegInf [of k Q temp] q by (simp add: p_def)
  qed
  from some_fin obtain v where v: "Fin v \<in> set Q" by blast
  show ?thesis
  proof (intro exI conjI)
    show "compute_return t g = (None, t')" by fact
    show "fill_Q (children (tree_root t')) (replicate n_actions NegInf) = Inr Q" by fact
    show "softmax_Q_tree_policy t n_actions g temp = (Inr p, t')" by fact
    show "p = softmax Q temp" by (simp add: p_def)
    show "length Q = n_actions" by fact
    show "length p = n_actions" by (simp add: p_def softmax_length lenQ)
    show "sum_list p = 1" unfolding p_def by (rule softmax_sum [OF v])
    show "\<forall>k<n_actions. 0 \<le> p ! k" by (simp add: p_def softmax_nonneg lenQ)
    show "\<forall>k<n_actions. (\<forall>c\<in>set (children (tree_root t)). data_a (data c) \<noteq> Some (int k))
          \<longrightarrow> Q ! k = NegInf \<and> p ! k = 0"
      using absent by blast
    show "\<forall>i<length (children (tree_root t')). \<forall>k.
          data_a (data (children (tree_root t') ! i)) = Some (int k) \<and>
          (\<forall>j. i < j \<and> j < length (children (tree_root t'))
                \<longrightarrow> data_a (data (children (tree_root t') ! j)) \<noteq> Some (int k))
          \<longrightarrow> Q ! k = float32 (the (data_R (data (children (tree_root t') ! i))))"
      by fact
  qed
qed

lemma one_child_return:
  "compute_return (one_child_tree act rew) g =
     (None, \<lparr>tree_root = Node root_data [Node ((new_data act rew)\<lparr>data_R := Some rew\<rparr>) []],
             branching_factor = 3\<rparr>)"
  by (simp add: compute_return_def iter_breadth_first_reverse_def one_child_tree_def
      visit_def node_return_def is_leaf_def new_data_def)

theorem softmax_Q_tree_policy_distribution_witness:
  "rewards_defined (one_child_tree 1 2) \<and> children (tree_root (one_child_tree 1 2)) \<noteq> [] \<and>
   map (\<lambda>c. data_a (data c)) (children (tree_root (one_child_tree 1 2))) = [Some 1] \<and>
   map (\<lambda>c. float32 (the (data_R (data c))))
     (children (tree_root (snd (compute_return (one_child_tree 1 2) (99 / 100))))) = [Fin 2] \<and>
   (\<exists>t' p. softmax_Q_tree_policy (one_child_tree 1 2) 3 (99 / 100) (1 / 2) = (Inr p, t') \<and>
      length p = 3 \<and> sum_list p = 1 \<and> p ! 0 = 0 \<and> p ! 2 = 0)"
proof -
  have h1: "rewards_defined (one_child_tree 1 2)"
    by (simp add: rewards_defined_def one_child_tree_def iter_breadth_first_reverse_def
        new_data_def)
  have h2: "children (tree_root (one_child_tree 1 2)) \<noteq> []" by (simp add: one_child_tree_def)
  have acts: "map (\<lambda>c. data_a (data c)) (children (tree_root (one_child_tree 1 2))) = [Some 1]"
    by (simp add: one_child_tree_def new_data_def)
  have h3: "\<forall>c\<in>set (children (tree_root (one_child_tree 1 2))).
              \<exists>act. data_a (data c) = Some act \<and> 0 \<le> act \<and> act < int 3"
    by (simp add: one_child_tree_def new_data_def)
  have rets: "map (\<lambda>c. float32 (the (data_R (data c))))
     (children (tree_root (snd (compute_return (one_child_tree 1 2) (99 / 100))))) = [Fin 2]"
    by (simp add: one_child_return float32_2)
  have h4: "\<forall>c\<in>set (children (tree_root (snd (compute_return (one_child_tree 1 2) (99 / 100))))).
              \<exists>x. float32 (the (data_R (data c))) = Fin x"
    by (simp add: one_child_return float32_2)
  have no0: "\<forall>c\<in>set (children (tree_root (one_child_tree 1 2))). data_a (data c) \<noteq> Some (int 0)"
    and no2: "\<forall>c\<in>set (children (tree_root (one_child_tree 1 2))). data_a (data c) \<noteq> Some (int 2)"
    by (simp_all add: one_child_tree_def new_data_def)
  from softmax_Q_tree_policy_distribution [OF h1 h2 h3 h4, of "1 / 2"] obtain t' Q p
    where "softmax_Q_tree_policy (one_child_tree 1 2) 3 (99 / 100) (1 / 2) = (Inr p, t')"
      and "length p = 3" and "sum_list p = 1"
      and z: "\<forall>k<3. (\<forall>c\<in>set (children (tree_root (one_child_tree 1 2))).
                         data_a (data c) \<noteq> Some (int k)) \<longrightarrow> Q ! k = NegInf \<and> p ! k = 0"
    by blast
  moreover from z no0 have "p ! 0 = 0" by (metis zero_less_numeral)
  moreover from z no2 have "p ! 2 = 0"
    by (metis numeral_3_eq_3 numeral_2_eq_2 lessI)
  ultimately show ?thesis using h1 h2 acts rets by blast
qed

text \<open>
  C4 as stated fails four times. With \<open>n_actions\<close> equal to the action of a child of the root
  the assignment into \<open>Q\<close> raises \<open>IndexError\<close>. For a root without children at temperature 0
  the only action, which has no child, gets probability 1. A child of the root with action
  \<open>-1\<close> fills the last slot, so that action 2, which no child has, gets probability 1. And
  the slot of a child with return 16777217 holds 16777216, the return rounded to single
  precision.
\<close>

theorem softmax_Q_tree_policy_counterexample:
  "fst (softmax_Q_tree_policy (one_child_tree 1 2) 1 1 1) = Inl IndexError \<and>
   children (tree_root single_node_tree) = [] \<and>
   fst (softmax_Q_tree_policy single_node_tree 1 1 0) = Inr [1] \<and>
   fst (softmax_Q_tree_policy (one_child_tree (- 1) 2) 3 1 0) = Inr [0, 0, 1] \<and>
   fill_Q (children (tree_root (snd (compute_return (one_child_tree 1 16777217) 1))))
     (replicate 2 NegInf) = Inr [NegInf, Fin 16777216]"
proof -
  have a: "fst (softmax_Q_tree_policy (one_child_tree 1 2) 1 1 1) = Inl IndexError"
    by (simp add: softmax_Q_tree_policy_def one_child_return new_data_def)
  have b: "children (tree_root single_node_tree) = []"
    by (simp add: single_node_tree_def)
  have c: "fst (softmax_Q_tree_policy single_node_tree 1 1 0) = Inr [1]"
    by (simp add: softmax_Q_tree_policy_def compute_return_def iter_breadth_first_reverse_def
        single_node_tree_def softmax_def hard_max_def)
  have d: "fst (softmax_Q_tree_policy (one_child_tree (- 1) 2) 3 1 0) = Inr [0, 0, 1]"
    by (simp add: softmax_Q_tree_policy_def one_child_return new_data_def float32_2
        softmax_def hard_max_def numeral_3_eq_3)
  have e: "fill_Q (children (tree_root (snd (compute_return (one_child_tree 1 16777217) 1))))
     (replicate 2 NegInf) = Inr [NegInf, Fin 16777216]"
    by (simp add: one_child_return new_data_def float32_16777217 numeral_2_eq_2)
  from a b c d e show ?thesis by simp
qed

lemma example_tree_eq:
  "example_tree = two_step_tree root_data (new_data 0 0) (new_data 0 1) (new_data 1 0) (new_data 0 0)"
  by (simp add: example_tree_def two_step_tree_def new_data_def)

theorem two_step_policy_witness:
  "(\<exists>t' n'. compute_return example_tree 1 = (None, t') \<and>
       node_at [0] (tree_root t') = Some n' \<and> data_R (data n') = Some 1)
   \<and> fst (softmax_Q_tree_policy example_tree 2 1 0) = Inr [1, 0]"
  unfolding example_tree_eq by (rule two_step_policy)

text \<open>
  C9: the tree that \<open>softmax_Q_tree_policy\<close> leaves behind is the one \<open>compute_return\<close>
  leaves behind, so that every node but the root then stores the return the backup computes
  for it; and a caller who has run the backup before the call gets the same result.
\<close>

theorem softmax_Q_tree_policy_backs_up:
  "snd (softmax_Q_tree_policy t n_actions g temp) = snd (compute_return t g) \<and>
   softmax_Q_tree_policy (snd (compute_return t g)) n_actions g temp
     = softmax_Q_tree_policy t n_actions g temp \<and>
   (rewards_defined t \<longrightarrow>
      fst (compute_return t g) = None \<and>
      (\<forall>p m. p \<noteq> [] \<and> node_at p (tree_root t) = Some m \<longrightarrow>
         (\<exists>m' v. node_at p (tree_root (snd (softmax_Q_tree_policy t n_actions g temp))) = Some m' \<and>
                 node_return g m' = Inr v \<and> data_R (data m') = Some v)))"
proof -
  have a: "snd (softmax_Q_tree_policy t n_actions g temp) = snd (compute_return t g)"
    by (auto simp: softmax_Q_tree_policy_def split: prod.splits option.splits sum.splits)
  have b: "softmax_Q_tree_policy (snd (compute_return t g)) n_actions g temp
             = softmax_Q_tree_policy t n_actions g temp"
    by (simp add: softmax_Q_tree_policy_def compute_return_twice)
  have c: "fst (compute_return t g) = None \<and>
      (\<forall>p m. p \<noteq> [] \<and> node_at p (tree_root t) = Some m \<longrightarrow>
         (\<exists>m' v. node_at p (tree_root (snd (softmax_Q_tree_policy t n_actions g temp))) = Some m' \<and>
                 node_return g m' = Inr v \<and> data_R (data m') = Some v))"
    if "rewards_defined t"
    using compute_return_backup [OF that, of g] unfolding a by auto
  from a b c show ?thesis by blast
qed

theorem softmax_Q_tree_policy_backs_up_witness:
  "rewards_defined example_tree \<and>
   snd (softmax_Q_tree_policy example_tree 2 1 0) = snd (compute_return example_tree 1) \<and>
   snd (softmax_Q_tree_policy example_tree 2 1 0) \<noteq> example_tree \<and>
   (\<exists>m' v. node_at [0] (tree_root (snd (softmax_Q_tree_policy example_tree 2 1 0))) = Some m' \<and>
           node_return 1 m' = Inr v \<and> data_R (data m') = Some v)"
proof -
  have h: "rewards_defined example_tree"
    by (simp add: rewards_defined_def example_tree_def iter_breadth_first_reverse_def
        new_data_def root_data_def)
  have at: "[0] \<noteq> [] \<and> node_at [0] (tree_root example_tree)
              = Some (Node (new_data 0 0) [Node (new_data 0 1) []])"
    by (simp add: example_tree_def)
  note th = softmax_Q_tree_policy_backs_up [of example_tree 2 1 0]
  from th have eq: "snd (softmax_Q_tree_policy example_tree 2 1 0) = snd (compute_return example_tree 1)"
    by blast
  have "snd (compute_return example_tree 1) \<noteq> example_tree"
    unfolding example_tree_eq two_step_return
    by (simp add: two_step_tree_def new_data_def)
  moreover from th h at
  have "\<exists>m' v. node_at [0] (tree_root (snd (softmax_Q_tree_policy example_tree 2 1 0))) = Some m' \<and>
           node_return 1 m' = Inr v \<and> data_R (data m') = Some v"
    by blast
  ultimately show ?thesis using h eq by simp
qed

section \<open>Properties of the planner\<close>





declare expand_node.simps [simp del] expand_actions.simps [simp del]





text \<open>
  The planner on a single root with two actions, in a simulator whose every step ends the
  episode: it expands both actions of the root, the two children are terminal, and nothing
  is left to expand.
\<close>

lemma plan_terminal_run:
  assumes "\<And>a. len (actor_tree a) < 3 \<Longrightarrow> stop a = False"
  shows "plan iw1_is_novel terminal_env stop [] [] root_actor =
     Some (([(1, 0, 0), (1, 0, 1)], []),
       \<lparr>actor_tree =
          \<lparr>tree_root = Node (root_data\<lparr>data_r := Some 1\<rparr>)
             [Node (fst (terminal_env () root_data 0)\<lparr>data_a := Some 0\<rparr>) [],
              Node (fst (terminal_env () root_data 1)\<lparr>data_a := Some 1\<rparr>) []],
           branching_factor = 2\<rparr>,
        actor_env = ()\<rparr>)"
  apply (subst plan.simps)
  apply (simp add: assms len_def root_actor_def single_node_tree_def select_expansion_def
      expand_node.simps expand_actions.simps generate_successor_def terminal_env_def
      iw1_is_novel_def feature_atoms_def root_data_def numeral_2_eq_2)
  apply (subst plan.simps)
  apply (simp add: assms len_def select_expansion_def expand_node.simps expand_actions.simps
      generate_successor_def terminal_env_def iw1_is_novel_def feature_atoms_def)
  apply (subst plan.simps)
  apply (simp add: len_def select_expansion_def expand_node.simps expand_actions.simps)
  done


section \<open>Properties of the planning step\<close>

lemma actor_step_data:
  assumes "actor_step env_step actor act cache_subtree = ((prev, cur), actor')"
  shows "prev = data (tree_root (actor_tree actor))"
    and "cur = data (tree_root (actor_tree actor'))"
    and "(\<exists>c\<in>set (children (tree_root (actor_tree actor))). cur = data c) \<or>
         (\<exists>s d. cur = (fst (env_step s d act))\<lparr>data_a := Some (int act)\<rparr>)"
proof -
  show "prev = data (tree_root (actor_tree actor))"
    and "cur = data (tree_root (actor_tree actor'))"
    using assms
    by (auto simp: actor_step_def Let_def split: prod.splits option.splits if_splits)
  show "(\<exists>c\<in>set (children (tree_root (actor_tree actor))). cur = data c) \<or>
         (\<exists>s d. cur = (fst (env_step s d act))\<lparr>data_a := Some (int act)\<rparr>)"
  proof (cases "find (\<lambda>c. data_a (data c) = Some (int act)) (children (tree_root (actor_tree actor)))")
    case None
    with assms have "cur = (fst (env_step (actor_env actor) (data (tree_root (actor_tree actor))) act))
                             \<lparr>data_a := Some (int act)\<rparr>"
      by (auto simp: actor_step_def Let_def split: prod.splits)
    then show ?thesis by blast
  next
    case (Some c)
    then have "c \<in> set (children (tree_root (actor_tree actor)))"
      by (auto simp: find_Some_iff)
    moreover from Some assms have "cur = data c"
      by (auto simp: actor_step_def Let_def split: prod.splits)
    ultimately show ?thesis by blast
  qed
qed

lemma root_child_reward:
  assumes "rewards_defined t" "i < length (children (tree_root t))"
  shows "data_r (data (children (tree_root t) ! i)) \<noteq> None"
proof -
  from assms(2) have at: "node_at [i] (tree_root t) = Some (children (tree_root t) ! i)" by simp
  then have "[i] \<in> set (iter_breadth_first_reverse t False True)" by (simp add: iter_set)
  with assms(1) at show ?thesis
    unfolding rewards_defined_def list_all_iff by force
qed

text \<open>
  C10: when the planner returns without an exception and leaves a tree in which every node
  but the root has a reward, the root has an observation and every child of the root has an
  action from 0 up to but not including the branching factor and a termination flag (as has
  every node that the simulator generates), the call of \<open>planning_step\<close> returns. The dataset
  is then the one passed in followed by exactly one record, made of the observation of the
  root before the actor's step and of the policy at temperature 0 computed on the tree after
  planning, and the pair returned is the reward and the termination flag of the root after
  the actor's step with the sampled action.
\<close>

theorem planning_step_record:
  assumes planned: "planner_plan actor
         (\<lambda>a. int (len (actor_tree a)) - int (len (actor_tree actor)) = tree_budget) policy_fn
       = Some (None, actor1)"
    and rewards: "rewards_defined (actor_tree actor1)"
    and kids: "\<forall>c\<in>set (children (tree_root (actor_tree actor1))).
         (\<exists>act. data_a (data c) = Some act \<and> 0 \<le> act \<and>
                act < int (branching_factor (actor_tree actor1))) \<and>
         data_done (data c) \<noteq> None"
    and obs: "data_obs (data (tree_root (actor_tree actor1))) = Some obs"
    and env: "\<forall>s d act. data_r (fst (env_step s d act)) \<noteq> None \<and>
                        data_done (fst (env_step s d act)) \<noteq> None"
  shows "\<exists>pol t2 rwd dn actor'.
     softmax_Q_tree_policy (actor_tree actor1) (branching_factor (actor_tree actor1)) g 0
       = (Inr pol, t2) \<and>
     planning_step planner_plan sample_pmf env_step actor dataset policy_fn tree_budget
         cache_subtree g
       = Some (Inr (rwd, dn), actor', dataset @ [\<lparr>observations = obs, target_policy = pol\<rparr>]) \<and>
     actor' = snd (actor_step env_step (actor1\<lparr>actor_tree := t2\<rparr>) (sample_pmf pol) cache_subtree) \<and>
     data_r (data (tree_root (actor_tree actor'))) = Some rwd \<and>
     data_done (data (tree_root (actor_tree actor'))) = Some dn"
proof -
  define t1 where "t1 = actor_tree actor1"
  define bf where "bf = branching_factor t1"
  from kids have acts: "\<forall>c\<in>set (children (tree_root t1)).
      \<exists>act. data_a (data c) = Some act \<and> 0 \<le> act \<and> act < int bf"
    by (simp add: t1_def bf_def)
  from root_children_backed_up [OF rewards [folded t1_def] acts, of g] obtain t2 Q
    where cr: "compute_return t1 g = (None, t2)"
      and len: "length (children (tree_root t2)) = length (children (tree_root t1))"
      and same: "\<forall>i<length (children (tree_root t1)).
          (data (children (tree_root t2) ! i))\<lparr>data_R := data_R (data (children (tree_root t1) ! i))\<rparr>
            = data (children (tree_root t1) ! i)"
      and fq: "fill_Q (children (tree_root t2)) (replicate bf NegInf) = Inr Q"
    by blast
  define pol where "pol = softmax Q 0"
  have sq: "softmax_Q_tree_policy t1 bf g 0 = (Inr pol, t2)"
    using cr fq by (simp add: softmax_Q_tree_policy_def pol_def)
  from cr have "snd (compute_return t1 g) = t2" by simp
  with compute_return_only_R [of t1 g] have root2: "data (tree_root t2) = data (tree_root t1)"
    by simp
  obtain prev cur actor2 where st: "actor_step env_step (actor1\<lparr>actor_tree := t2\<rparr>)
      (sample_pmf pol) cache_subtree = ((prev, cur), actor2)"
    by (cases "actor_step env_step (actor1\<lparr>actor_tree := t2\<rparr>) (sample_pmf pol) cache_subtree")
       auto
  from actor_step_data [OF st] have prev: "prev = data (tree_root t2)"
    and cur: "cur = data (tree_root (actor_tree actor2))"
    and src: "(\<exists>c\<in>set (children (tree_root t2)). cur = data c) \<or>
         (\<exists>s d. cur = (fst (env_step s d (sample_pmf pol)))\<lparr>data_a := Some (int (sample_pmf pol))\<rparr>)"
    by simp_all
  have defined: "data_r cur \<noteq> None \<and> data_done cur \<noteq> None"
    using src
  proof
    assume "\<exists>c\<in>set (children (tree_root t2)). cur = data c"
    then obtain i where i2: "i < length (children (tree_root t2))"
      and c: "cur = data (children (tree_root t2) ! i)"
      by (auto simp: in_set_conv_nth)
    from i2 len have i: "i < length (children (tree_root t1))" by simp
    from same i have d: "(data (children (tree_root t2) ! i))
        \<lparr>data_R := data_R (data (children (tree_root t1) ! i))\<rparr> = data (children (tree_root t1) ! i)"
      by blast
    from i kids have "data_done (data (children (tree_root t1) ! i)) \<noteq> None"
      by (simp add: t1_def)
    moreover have "data_r (data (children (tree_root t1) ! i)) \<noteq> None"
      by (rule root_child_reward [OF rewards [folded t1_def] i])
    ultimately show ?thesis
      using only_R_fields(1) [OF d] only_R_fields(3) [OF d] c by simp
  next
    assume "\<exists>s d. cur = (fst (env_step s d (sample_pmf pol)))\<lparr>data_a := Some (int (sample_pmf pol))\<rparr>"
    with env show ?thesis by auto
  qed
  then obtain rwd dn where r: "data_r cur = Some rwd" and dn: "data_done cur = Some dn" by auto
  from obs prev root2 have pobs: "data_obs prev = Some obs" by (simp add: t1_def)
  have "planning_step planner_plan sample_pmf env_step actor dataset policy_fn tree_budget
         cache_subtree g
       = Some (Inr (rwd, dn), actor2, dataset @ [\<lparr>observations = obs, target_policy = pol\<rparr>])"
    unfolding planning_step_def Let_def planned
    using sq st pobs r dn by (simp add: t1_def bf_def)
  moreover have "actor2 = snd (actor_step env_step (actor1\<lparr>actor_tree := t2\<rparr>) (sample_pmf pol)
      cache_subtree)" using st by simp
  ultimately show ?thesis
    using sq r dn cur unfolding t1_def bf_def by blast
qed

lemma rollout_planner_run:
  "rollout_planner root_actor
     (\<lambda>a. int (len (actor_tree a)) - int (len (actor_tree root_actor)) = 2) ()
     = Some (None, \<lparr>actor_tree = planned_tree, actor_env = ()\<rparr>)"
proof -
  have "plan iw1_is_novel terminal_env
          (\<lambda>a. int (len (actor_tree a)) - int (len (actor_tree root_actor)) = 2) [] [] root_actor =
     Some (([(1, 0, 0), (1, 0, 1)], []),
       \<lparr>actor_tree =
          \<lparr>tree_root = Node (root_data\<lparr>data_r := Some 1\<rparr>)
             [Node (fst (terminal_env () root_data 0)\<lparr>data_a := Some 0\<rparr>) [],
              Node (fst (terminal_env () root_data 1)\<lparr>data_a := Some 1\<rparr>) []],
           branching_factor = 2\<rparr>,
        actor_env = ()\<rparr>)"
    by (rule plan_terminal_run)
       (simp add: len_def root_actor_def single_node_tree_def)
  then show ?thesis by (simp add: rollout_planner_def planned_tree_def)
qed

lemma planned_policy:
  "fst (softmax_Q_tree_policy planned_tree 2 1 0) = Inr [1 / 2, 1 / 2]"
  by (simp add: softmax_Q_tree_policy_def compute_return_def iter_breadth_first_reverse_def
      planned_tree_def terminal_env_def visit_def node_return_def is_leaf_def float32_0
      softmax_def hard_max_def numeral_2_eq_2)

theorem planning_step_record_witness:
  "rollout_planner root_actor
     (\<lambda>a. int (len (actor_tree a)) - int (len (actor_tree root_actor)) = 2) ()
     = Some (None, \<lparr>actor_tree = planned_tree, actor_env = ()\<rparr>) \<and>
   rewards_defined planned_tree \<and>
   data_obs (data (tree_root planned_tree)) = Some [0] \<and>
   map (\<lambda>c. (data_a (data c), data_done (data c))) (children (tree_root planned_tree))
     = [(Some 0, Some True), (Some 1, Some True)] \<and>
   (\<exists>actor'.
      planning_step rollout_planner sample_first terminal_env root_actor [] () 2 True 1
        = Some (Inr (0, True), actor', [\<lparr>observations = [0], target_policy = [1 / 2, 1 / 2]\<rparr>]) \<and>
      data_r (data (tree_root (actor_tree actor'))) = Some 0 \<and>
      data_done (data (tree_root (actor_tree actor'))) = Some True)"
proof -
  define actor1 :: "unit actor" where "actor1 = \<lparr>actor_tree = planned_tree, actor_env = ()\<rparr>"
  have t1: "actor_tree actor1 = planned_tree" and bf: "branching_factor planned_tree = 2"
    by (simp_all add: actor1_def planned_tree_def)
  have h1: "rollout_planner root_actor
     (\<lambda>a. int (len (actor_tree a)) - int (len (actor_tree root_actor)) = 2) ()
     = Some (None, actor1)"
    unfolding actor1_def by (rule rollout_planner_run)
  have h2: "rewards_defined (actor_tree actor1)"
    by (simp add: t1 rewards_defined_def planned_tree_def iter_breadth_first_reverse_def
        terminal_env_def)
  have kids: "map (\<lambda>c. (data_a (data c), data_done (data c))) (children (tree_root planned_tree))
     = [(Some 0, Some True), (Some 1, Some True)]"
    by (simp add: planned_tree_def terminal_env_def)
  have h3: "\<forall>c\<in>set (children (tree_root (actor_tree actor1))).
         (\<exists>act. data_a (data c) = Some act \<and> 0 \<le> act \<and>
                act < int (branching_factor (actor_tree actor1))) \<and>
         data_done (data c) \<noteq> None"
    by (auto simp: t1 planned_tree_def terminal_env_def)
  have h4: "data_obs (data (tree_root (actor_tree actor1))) = Some [0]"
    by (simp add: t1 planned_tree_def root_data_def)
  have h5: "\<forall>s d act. data_r (fst (terminal_env s d act)) \<noteq> None \<and>
                        data_done (fst (terminal_env s d act)) \<noteq> None"
    by (simp add: terminal_env_def)
  from planning_step_record [where planner_plan = rollout_planner and actor = root_actor
      and tree_budget = 2 and policy_fn = "()" and ?actor1.0 = actor1
      and env_step = terminal_env and obs = "[0]" and g = 1 and sample_pmf = sample_first
      and dataset = "[]" and cache_subtree = True, OF h1 h2 h3 h4 h5]
  obtain pol t2 rwd dn actor'
    where sq: "softmax_Q_tree_policy planned_tree 2 1 0 = (Inr pol, t2)"
      and run: "planning_step rollout_planner sample_first terminal_env root_actor [] () 2 True 1
        = Some (Inr (rwd, dn), actor', [] @ [\<lparr>observations = [0], target_policy = pol\<rparr>])"
      and step: "actor' = snd (actor_step terminal_env (actor1\<lparr>actor_tree := t2\<rparr>)
                                (sample_first pol) True)"
      and r: "data_r (data (tree_root (actor_tree actor'))) = Some rwd"
      and dn: "data_done (data (tree_root (actor_tree actor'))) = Some dn"
    unfolding t1 bf by blast
  from sq planned_policy have pol: "pol = [1 / 2, 1 / 2]" by simp
  from sq have "t2 = snd (softmax_Q_tree_policy planned_tree 2 1 0)" by simp
  then have t2: "t2 = snd (compute_return planned_tree 1)"
    by (auto simp: softmax_Q_tree_policy_def split: prod.splits option.splits sum.splits)
  have new_root: "data_r (data (tree_root (actor_tree actor'))) = Some 0 \<and>
      data_done (data (tree_root (actor_tree actor'))) = Some True"
    unfolding step pol t2
    by (simp add: actor_step_def sample_first_def compute_return_def
        iter_breadth_first_reverse_def planned_tree_def terminal_env_def visit_def
        node_return_def is_leaf_def actor1_def)
  with r dn have "rwd = 0" "dn = True" by simp_all
  with run pol new_root h1 h2 h4 kids show ?thesis
    by (simp add: t1 actor1_def)
qed

end
